theory Spec2Isabelle
  imports Main "HOL-Library.Word" "HOL-Library.Sublist"
begin

section \<open>JavaScript strings\<close>

text \<open>
  A JavaScript string is a sequence of UTF-16 code units; \<open>length\<close>, \<open>substring\<close>,
  \<open>startsWith\<close> and a regular expression without the \<open>u\<close> flag all work on code
  units, so a character outside the Basic Multilingual Plane is two elements
  (a surrogate pair).
\<close>

type_synonym jschar = "16 word"
type_synonym jsstring = "jschar list"

text \<open>An ASCII literal of the source, as code units.\<close>

definition js :: "string \<Rightarrow> jsstring" where
  "js s = map of_char s"

text \<open>
  The code units a source literal holds for one code point: the code point itself
  below \<open>0x10000\<close>, and the high and low surrogate otherwise.
\<close>

definition utf16 :: "nat \<Rightarrow> jsstring" where
  "utf16 cp =
     (if cp < 0x10000 then [of_nat cp]
      else [of_nat (0xD800 + (cp - 0x10000) div 0x400),
            of_nat (0xDC00 + (cp - 0x10000) mod 0x400)])"

text \<open>
  Line terminators of ECMAScript: the characters \<open>.\<close> does not match
  (LF, CR, LS, PS).
\<close>

definition is_line_terminator :: "jschar \<Rightarrow> bool" where
  "is_line_terminator c \<longleftrightarrow> c = 0x0A \<or> c = 0x0D \<or> c = 0x2028 \<or> c = 0x2029"

text \<open>
  The characters matched by \<open>\s\<close> and removed by \<open>String.prototype.trim\<close>:
  ECMAScript WhiteSpace (TAB, VT, FF, SP, NBSP, ZWNBSP and the Unicode space
  separators) together with the line terminators.
\<close>

definition is_white_space :: "jschar \<Rightarrow> bool" where
  "is_white_space c \<longleftrightarrow>
     c = 0x09 \<or> c = 0x0B \<or> c = 0x0C \<or> c = 0x20 \<or> c = 0xA0 \<or> c = 0xFEFF \<or>
     c = 0x1680 \<or> (0x2000 \<le> c \<and> c \<le> 0x200A) \<or> c = 0x202F \<or> c = 0x205F \<or>
     c = 0x3000 \<or> is_line_terminator c"

text \<open>\<open>s.trim()\<close>: white space removed from both ends.\<close>

definition trim :: "jsstring \<Rightarrow> jsstring" where
  "trim s = rev (dropWhile is_white_space (rev (dropWhile is_white_space s)))"

text \<open>\<open>s.split('\n')\<close>: the pieces between line feeds; never an empty array.\<close>

fun split_lines :: "jsstring \<Rightarrow> jsstring list" where
  "split_lines [] = [[]]"
| "split_lines (c # cs) =
     (if c = 0x0A then [] # split_lines cs
      else (case split_lines cs of
              [] \<Rightarrow> [[c]]
            | l # ls \<Rightarrow> (c # l) # ls))"

section \<open>Block classifier (FormattedNotesDisplay)\<close>

text \<open>
  The four elements the component renders for a line: an empty \<open>line-break\<close> div,
  a \<open>note-header\<close>, a \<open>note-bullet\<close> (the glyph in its own span, the content in
  another) and a \<open>note-paragraph\<close>.
\<close>

datatype RenderBlock =
    Spacer
  | Header jsstring
  | Bullet jsstring
  | Paragraph jsstring

text \<open>
  The class of \<open>/^[...]/\<close> in the source holds the five glyphs U+1F3AF, U+1F4A1,
  U+2B50, U+1F4DD, U+1F50D. The expression has no \<open>u\<close> flag, so the members of the
  class are the code units of that text, each on its own.
\<close>

definition header_glyphs :: "nat list" where
  "header_glyphs = [0x1F3AF, 0x1F4A1, 0x2B50, 0x1F4DD, 0x1F50D]"

definition header_class :: "jschar list" where
  "header_class = concat (map utf16 header_glyphs)"

definition bullet_glyph :: jschar where
  "bullet_glyph = 0x2022"

text \<open>\<open>trimmedLine.match(/^[...]/)\<close>: the first code unit is in the class.\<close>

definition matches_header :: "jsstring \<Rightarrow> bool" where
  "matches_header s = (case s of [] \<Rightarrow> False | c # _ \<Rightarrow> c \<in> set header_class)"

text \<open>\<open>trimmedLine.startsWith('\<bullet>')\<close> with the one-unit bullet U+2022.\<close>

definition startsWith_bullet :: "jsstring \<Rightarrow> bool" where
  "startsWith_bullet s = (case s of [] \<Rightarrow> False | c # _ \<Rightarrow> c = bullet_glyph)"

text \<open>The body of the \<open>lines.map\<close> callback.\<close>

definition classifyLine :: "jsstring \<Rightarrow> RenderBlock" where
  "classifyLine line =
     (let trimmedLine = trim line in
      if trimmedLine = [] then Spacer
      else if matches_header trimmedLine then Header trimmedLine
      else if startsWith_bullet trimmedLine then Bullet (trim (drop 1 trimmedLine))
      else Paragraph trimmedLine)"

definition classify :: "jsstring \<Rightarrow> RenderBlock list" where
  "classify cleanContent = map classifyLine (split_lines cleanContent)"

section \<open>Regular-expression replacement (String.prototype.replace with the g flag)\<close>

text \<open>
  A rule stands for one \<open>.replace(/re/g, '$1')\<close> (or \<open>''\<close>) call: applied to the input
  from some position on, it says whether the expression matches exactly there and,
  if so, gives the expanded replacement and the input left after the match.
\<close>

type_synonym rule = "jsstring \<Rightarrow> (jsstring \<times> jsstring) option"

text \<open>A literal piece of a pattern, such as \<open>\*\*\<close>: the input must start with it.\<close>

fun literal :: "jsstring \<Rightarrow> jsstring \<Rightarrow> jsstring option" where
  "literal [] s = Some s"
| "literal (d # ds) [] = None"
| "literal (d # ds) (c # cs) = (if d = c then literal ds cs else None)"

text \<open>
  The lazy \<open>(.*?)\<close> followed by the rest \<open>k\<close> of the pattern: the matcher tries the
  empty capture first and extends it one character at a time, never over a line
  terminator, until \<open>k\<close> matches; the result is the capture and what \<open>k\<close> returns.
\<close>

fun lazy_any :: "(jsstring \<Rightarrow> 'a option) \<Rightarrow> jsstring \<Rightarrow> (jsstring \<times> 'a) option" where
  "lazy_any k [] = map_option (Pair []) (k [])"
| "lazy_any k (c # cs) =
     (case k (c # cs) of
        Some r \<Rightarrow> Some ([], r)
      | None \<Rightarrow>
          if is_line_terminator c then None
          else map_option (\<lambda>(cap, r). (c # cap, r)) (lazy_any k cs))"

text \<open>\<open>/D(.*?)D/\<close> replaced by \<open>$1\<close>, for a delimiter \<open>D\<close> of literal characters.\<close>

definition wrap_rule :: "jsstring \<Rightarrow> rule" where
  "wrap_rule d s =
     (case literal d s of
        None \<Rightarrow> None
      | Some r \<Rightarrow> lazy_any (literal d) r)"

text \<open>\<open>/D\s*/\<close> replaced by the empty string; \<open>\s*\<close> is greedy and nothing follows it.\<close>

definition heading_rule :: "jsstring \<Rightarrow> rule" where
  "heading_rule d s =
     (case literal d s of
        None \<Rightarrow> None
      | Some r \<Rightarrow> Some ([], dropWhile is_white_space r))"

text \<open>\<open>/\[(.*?)\]\(.*?\)/\<close> replaced by \<open>$1\<close>.\<close>

definition link_rule :: rule where
  "link_rule s =
     (case literal (js ''['') s of
        None \<Rightarrow> None
      | Some r \<Rightarrow>
          lazy_any
            (\<lambda>t. case literal (js '']('') t of
                   None \<Rightarrow> None
                 | Some u \<Rightarrow> map_option snd (lazy_any (literal (js '')'')) u))
            r)"

text \<open>
  The global replacement: matches are looked for from left to right, the text
  between matches is copied, and the search goes on after each match. After an empty
  match the search moves one character on, as \<open>lastIndex\<close> does.
\<close>

fun replace_all :: "rule \<Rightarrow> jsstring \<Rightarrow> jsstring" where
  "replace_all m [] = (case m [] of Some (rep, rest) \<Rightarrow> rep | None \<Rightarrow> [])"
| "replace_all m (c # cs) =
     (case m (c # cs) of
        Some (rep, rest) \<Rightarrow>
          if length rest < length (c # cs) then rep @ replace_all m rest
          else rep @ c # replace_all m cs
      | None \<Rightarrow> c # replace_all m cs)"

text \<open>\<open>re.test(s)\<close>: the expression matches somewhere in \<open>s\<close>.\<close>

fun test :: "rule \<Rightarrow> jsstring \<Rightarrow> bool" where
  "test m [] = (m [] \<noteq> None)"
| "test m (c # cs) = (m (c # cs) \<noteq> None \<or> test m cs)"

section \<open>The two clean-up chains\<close>

text \<open>The chain of \<open>FormattedNotesDisplay\<close> (frontend), in the order of its calls.\<close>

definition display_rules :: "rule list" where
  "display_rules =
     [wrap_rule (js ''***''), wrap_rule (js ''**''), wrap_rule (js ''*''),
      wrap_rule (js ''__''), wrap_rule (js ''_''),
      wrap_rule (js ''`''),
      heading_rule (js ''###''), heading_rule (js ''##''), heading_rule (js ''#'')]"

definition cleanContent :: "jsstring \<Rightarrow> jsstring" where
  "cleanContent content = fold replace_all display_rules content"

text \<open>The chain of \<open>simplifyNotes\<close> (backend), in the order of its calls.\<close>

definition response_rules :: "rule list" where
  "response_rules =
     [wrap_rule (js ''***''), wrap_rule (js ''**''), wrap_rule (js ''*''),
      wrap_rule (js ''__''), wrap_rule (js ''_''),
      heading_rule (js ''###''), heading_rule (js ''##''), heading_rule (js ''#''),
      wrap_rule (js ''`''),
      link_rule]"

definition cleanResponse :: "jsstring \<Rightarrow> jsstring" where
  "cleanResponse response = fold replace_all response_rules response"

text \<open>The component: clean, split into lines, classify each line.\<close>

definition FormattedNotesDisplay :: "jsstring \<Rightarrow> RenderBlock list" where
  "FormattedNotesDisplay content = classify (cleanContent content)"

section \<open>Text extraction (backend)\<close>

type_synonym buffer = "8 word list"

text \<open>A thrown \<open>new Error(message)\<close>: the only thing the code puts into it is the message.\<close>

datatype js_error = Error (message: jsstring)

text \<open>
  What the backend calls outside the repository: the \<open>pdf-parse\<close> reader (rejects
  with an error that has a message, or resolves with data whose \<open>text\<close> the code
  reads), \<open>mammoth.extractRawText\<close> (rejects likewise, or resolves with a result whose
  \<open>value\<close> the code reads), \<open>buffer.toString('utf-8')\<close>, which never throws,
  \<open>path.extname\<close> and \<open>String.prototype.toLowerCase\<close>. The \<open>await\<close>s are sequential, so
  a promise is modelled by its outcome.
\<close>

record platform =
  pdfParse :: "buffer \<Rightarrow> js_error + jsstring"
  extractRawText :: "buffer \<Rightarrow> js_error + jsstring"
  toString_utf8 :: "buffer \<Rightarrow> jsstring"
  extname :: "jsstring \<Rightarrow> jsstring"
  toLowerCase :: "jsstring \<Rightarrow> jsstring"

text \<open>\<open>a || b\<close> on strings: the empty string is falsy.\<close>

definition or_else :: "jsstring \<Rightarrow> jsstring \<Rightarrow> jsstring" where
  "or_else a b = (if a = [] then b else a)"

definition safePdfParse :: "platform \<Rightarrow> buffer \<Rightarrow> js_error + jsstring" where
  "safePdfParse p buffer =
     (case pdfParse p buffer of
        Inr data \<Rightarrow> Inr data
      | Inl error \<Rightarrow> Inl (Error (js ''PDF parsing failed: '' @ message error)))"

definition pdf_failed_text :: jsstring where
  "pdf_failed_text =
     js ''PDF text extraction failed. The PDF might be image-based or corrupted. Please try copying the text manually.''"

definition extractTextFromPDF :: "platform \<Rightarrow> buffer \<Rightarrow> js_error + jsstring" where
  "extractTextFromPDF p buffer =
     (case safePdfParse p buffer of
        Inr text \<Rightarrow> Inr (or_else (trim text) (js ''No readable text found in PDF''))
      | Inl error \<Rightarrow> Inr pdf_failed_text)"

definition extractTextFromWord :: "platform \<Rightarrow> buffer \<Rightarrow> js_error + jsstring" where
  "extractTextFromWord p buffer =
     (case extractRawText p buffer of
        Inr val \<Rightarrow> Inr (or_else (trim val) (js ''No text found in Word document''))
      | Inl error \<Rightarrow>
          Inl (Error (js ''Failed to extract text from Word document: '' @ message error)))"

text \<open>
  The text of the error thrown when nothing applies; \<open>mimetype || 'unknown'\<close> and
  \<open>ext || 'no extension'\<close> stand for the two interpolations.
\<close>

definition unsupported_message :: "jsstring option \<Rightarrow> jsstring \<Rightarrow> jsstring" where
  "unsupported_message mimetype ext =
     js ''Unsupported file type: ''
     @ (case mimetype of None \<Rightarrow> js ''unknown'' | Some m \<Rightarrow> or_else m (js ''unknown''))
     @ js '' ('' @ or_else ext (js ''no extension'')
     @ js ''). Supported formats: PDF, Word (.docx, .doc), Text (.txt, .md, .csv)''"

text \<open>The outer \<open>catch\<close> of \<open>extractTextFromFile\<close>: every error is thrown again, prefixed.\<close>

definition rethrow :: "js_error + jsstring \<Rightarrow> js_error + jsstring" where
  "rethrow r =
     (case r of
        Inr text \<Rightarrow> Inr text
      | Inl error \<Rightarrow> Inl (Error (js ''Failed to extract text from file: '' @ message error)))"

text \<open>
  The declared type is a string or absent. The two nested \<open>switch\<close> statements are
  written as the chain of their cases.
\<close>

definition extractTextFromFile ::
  "platform \<Rightarrow> buffer \<Rightarrow> jsstring option \<Rightarrow> jsstring \<Rightarrow> js_error + jsstring" where
  "extractTextFromFile p buffer mimetype filename =
     rethrow
       (if mimetype = Some (js ''text/plain'') then Inr (toString_utf8 p buffer)
        else if mimetype = Some (js ''application/pdf'') then extractTextFromPDF p buffer
        else if mimetype =
                  Some (js ''application/vnd.openxmlformats-officedocument.wordprocessingml.document'')
                \<or> mimetype = Some (js ''application/msword'')
        then extractTextFromWord p buffer
        else
          let ext = toLowerCase p (extname p filename) in
          if ext = js ''.txt'' \<or> ext = js ''.md'' \<or> ext = js ''.csv''
          then Inr (toString_utf8 p buffer)
          else if ext = js ''.pdf'' then extractTextFromPDF p buffer
          else if ext = js ''.docx'' \<or> ext = js ''.doc'' then extractTextFromWord p buffer
          else
            let text = toString_utf8 p buffer in
            if length text > 0 \<and> length text < 1000000 then Inr text
            else Inl (Error (unsupported_message mimetype ext)))"

section \<open>Notions used in the statements\<close>

text \<open>A string with no white space at either end.\<close>

definition trimmed :: "jsstring \<Rightarrow> bool" where
  "trimmed s \<longleftrightarrow> s = [] \<or> (\<not> is_white_space (hd s) \<and> \<not> is_white_space (last s))"

text \<open>The text inside the element rendered for a block; the line-break div has none.\<close>

fun block_content :: "RenderBlock \<Rightarrow> jsstring" where
  "block_content Spacer = []"
| "block_content (Header c) = c"
| "block_content (Bullet c) = c"
| "block_content (Paragraph c) = c"

text \<open>Lines put together again with a line feed between them.\<close>

fun join_lines :: "jsstring list \<Rightarrow> jsstring" where
  "join_lines [] = []"
| "join_lines [l] = l"
| "join_lines (l # ls) = l @ 0x0A # join_lines ls"

text \<open>
  \<open>erases P s t\<close>: \<open>t\<close> is \<open>s\<close> with some characters taken out, each of them
  satisfying \<open>P\<close>.
\<close>

inductive erases :: "(jschar \<Rightarrow> bool) \<Rightarrow> jsstring \<Rightarrow> jsstring \<Rightarrow> bool" for P where
  erases_Nil: "erases P [] []"
| erases_keep: "erases P s t \<Longrightarrow> erases P (x # s) (x # t)"
| erases_drop: "P x \<Longrightarrow> erases P s t \<Longrightarrow> erases P (x # s) t"

text \<open>The character \<open>c\<close> occurs in \<open>s\<close> before any line terminator.\<close>

fun reach :: "jschar \<Rightarrow> jsstring \<Rightarrow> bool" where
  "reach c [] = False"
| "reach c (x # xs) = (x = c \<or> (\<not> is_line_terminator x \<and> reach c xs))"

text \<open>Stand-ins for the platform on small inputs, for evaluating the extractor.\<close>

definition ascii_lower :: "jsstring \<Rightarrow> jsstring" where
  "ascii_lower s = map (\<lambda>c. if 0x41 \<le> c \<and> c \<le> 0x5A then c + 0x20 else c) s"

text \<open>
  \<open>path.extname\<close> on a file name without directory separators: the part from the
  last dot on; empty when there is no dot, when the last dot is the first character,
  and for the name \<open>..\<close>.
\<close>

definition basename_extname :: "jsstring \<Rightarrow> jsstring" where
  "basename_extname name =
     (case name of
        [] \<Rightarrow> []
      | c # cs \<Rightarrow>
          if 0x2E \<notin> set cs \<or> name = js ''..'' then []
          else 0x2E # rev (takeWhile (\<lambda>c. c \<noteq> 0x2E) (rev cs)))"

definition stub_platform :: "(js_error + jsstring) \<Rightarrow> jsstring \<Rightarrow> platform" where
  "stub_platform reader decoded =
     \<lparr> pdfParse = (\<lambda>b. reader),
       extractRawText = (\<lambda>b. reader),
       toString_utf8 = (\<lambda>b. decoded),
       extname = basename_extname,
       toLowerCase = ascii_lower \<rparr>"

text \<open>The case labels of the two \<open>switch\<close> statements of \<open>extractTextFromFile\<close>.\<close>

definition known_mimetypes :: "jsstring list" where
  "known_mimetypes =
     [js ''text/plain'', js ''application/pdf'',
      js ''application/vnd.openxmlformats-officedocument.wordprocessingml.document'',
      js ''application/msword'']"

definition known_extensions :: "jsstring list" where
  "known_extensions =
     [js ''.txt'', js ''.md'', js ''.csv'', js ''.pdf'', js ''.docx'', js ''.doc'']"

definition declared_known :: "jsstring option \<Rightarrow> bool" where
  "declared_known mimetype =
     (case mimetype of None \<Rightarrow> False | Some m \<Rightarrow> m \<in> set known_mimetypes)"

text \<open>
  \<open>cuts P m\<close>: wherever the rule \<open>m\<close> matches, the match is a non-empty piece \<open>a\<close>, the
  replacement, and a piece \<open>b\<close>, and the replacement drops \<open>a\<close> and \<open>b\<close>, whose
  characters all satisfy \<open>P\<close>.
\<close>

definition cuts :: "(jschar \<Rightarrow> bool) \<Rightarrow> rule \<Rightarrow> bool" where
  "cuts P m \<longleftrightarrow>
     (\<forall>s rep rest. m s = Some (rep, rest) \<longrightarrow>
        (\<exists>a b. s = a @ rep @ b @ rest \<and> a \<noteq> [] \<and> (\<forall>x \<in> set a. P x) \<and> (\<forall>x \<in> set b. P x)))"

text \<open>
  The emphasis marks: the characters the first five rules of either chain take out.
\<close>

definition is_emphasis :: "jschar \<Rightarrow> bool" where
  "is_emphasis c \<longleftrightarrow> c = 0x2A \<or> c = 0x5F"

text \<open>
  What follows a \<open>#\<close> in a tidy text, looking past the characters \<open>M\<close> (emphasis
  marks that the earlier rules may take out). \<open>ins\<close> says that the text is inside a
  pair of backticks, so that the next backtick closes the pair; a backtick outside
  a pair opens one when another backtick follows on its line, and is left alone by
  the backtick rule otherwise.

  \<open>after_ticks\<close>: once a backtick that the rule removes has been passed, no white
  space comes before the next character that stays.
\<close>

fun after_ticks :: "(jschar \<Rightarrow> bool) \<Rightarrow> bool \<Rightarrow> jsstring \<Rightarrow> bool" where
  "after_ticks M ins [] = True"
| "after_ticks M ins (c # cs) =
     (if is_white_space c then False
      else if M c then after_ticks M ins cs
      else if c = 0x60 then
        (if ins then after_ticks M False cs
         else if reach 0x60 cs then after_ticks M True cs
         else True)
      else True)"

text \<open>
  \<open>after_hash\<close>: in the white space after the \<open>#\<close> there is no line terminator that
  has an unpaired backtick before it on its line (\<open>u\<close>) and a backtick after it; and
  when a backtick that the rule removes comes next, \<open>after_ticks\<close> holds behind it.
\<close>

fun after_hash :: "(jschar \<Rightarrow> bool) \<Rightarrow> bool \<Rightarrow> bool \<Rightarrow> jsstring \<Rightarrow> bool" where
  "after_hash M ins u [] = True"
| "after_hash M ins u (c # cs) =
     (if is_white_space c then
        \<not> (is_line_terminator c \<and> u \<and> 0x60 \<in> set cs) \<and> after_hash M ins u cs
      else if M c then after_hash M ins u cs
      else if c = 0x60 then
        (if ins then after_ticks M False cs
         else if reach 0x60 cs then after_ticks M True cs
         else True)
      else True)"

text \<open>
  \<open>tidy M ins u s\<close>: every \<open>#\<close> of \<open>s\<close> is followed as above; \<open>ins\<close> and \<open>u\<close> say how \<open>s\<close>
  starts: inside a pair of backticks, and after an unpaired backtick on its line.
\<close>

fun tidy :: "(jschar \<Rightarrow> bool) \<Rightarrow> bool \<Rightarrow> bool \<Rightarrow> jsstring \<Rightarrow> bool" where
  "tidy M ins u [] = True"
| "tidy M ins u (c # cs) =
     ((c = 0x23 \<longrightarrow> after_hash M ins u cs) \<and>
      (if c = 0x60 then
         (if ins then tidy M False u cs
          else if reach 0x60 cs then tidy M True u cs
          else tidy M False True cs)
       else tidy M ins (u \<and> \<not> is_line_terminator c) cs))"


text \<open>
  The last heading rule and the backtick rule on their own, and the empty set of
  marks.
\<close>

abbreviation strip_hashes :: "jsstring \<Rightarrow> jsstring" where
  "strip_hashes \<equiv> replace_all (heading_rule [0x23])"

abbreviation strip_ticks :: "jsstring \<Rightarrow> jsstring" where
  "strip_ticks \<equiv> replace_all (wrap_rule [0x60])"

abbreviation no_marks :: "jschar \<Rightarrow> bool" where
  "no_marks \<equiv> (\<lambda>c. False)"




text \<open>
  The part of a line behind its last \<open>#\<close> (the whole line when it has none), and the
  part before that \<open>#\<close>.
\<close>

definition tail_of :: "jsstring \<Rightarrow> jsstring" where
  "tail_of l = rev (takeWhile (\<lambda>a. a \<noteq> 0x23) (rev l))"

definition head_of :: "jsstring \<Rightarrow> jsstring" where
  "head_of l = rev (drop 1 (dropWhile (\<lambda>a. a \<noteq> 0x23) (rev l)))"



section \<open>Properties\<close>

subsection \<open>Leaf extractors\<close>

text \<open>
  C2. The PDF extractor always returns a text and never an error: when the reader
  fails, the fixed text about an image-based or corrupted PDF; when the reader
  succeeds, the trimmed text, or \<open>No readable text found in PDF\<close> when nothing is
  left after trimming.
\<close>

theorem extractTextFromPDF_never_fails:
  "(\<exists>t. extractTextFromPDF p buffer = Inr t) \<and>
   (\<forall>e. pdfParse p buffer = Inl e \<longrightarrow>
      extractTextFromPDF p buffer =
        Inr (js ''PDF text extraction failed. The PDF might be image-based or corrupted. Please try copying the text manually.'')) \<and>
   (\<forall>text. pdfParse p buffer = Inr text \<longrightarrow>
      extractTextFromPDF p buffer =
        Inr (if trim text = [] then js ''No readable text found in PDF'' else trim text))"
  by (auto simp: extractTextFromPDF_def safePdfParse_def pdf_failed_text_def or_else_def
      split: sum.splits)

theorem extractTextFromPDF_never_fails_witness:
  "extractTextFromPDF (stub_platform (Inl (Error (js ''Invalid PDF structure''))) []) [0x25, 0x50]
     = Inr (js ''PDF text extraction failed. The PDF might be image-based or corrupted. Please try copying the text manually.'') \<and>
   extractTextFromPDF (stub_platform (Inr (js '' Cell biology '')) []) [0x25, 0x50]
     = Inr (js ''Cell biology'') \<and>
   extractTextFromPDF (stub_platform (Inr (js ''  '')) []) [0x25, 0x50]
     = Inr (js ''No readable text found in PDF'')"
  using
    extractTextFromPDF_never_fails
      [of "stub_platform (Inl (Error (js ''Invalid PDF structure''))) []" "[0x25, 0x50]"]
    extractTextFromPDF_never_fails
      [of "stub_platform (Inr (js '' Cell biology '')) []" "[0x25, 0x50]"]
    extractTextFromPDF_never_fails
      [of "stub_platform (Inr (js ''  '')) []" "[0x25, 0x50]"]
  by (simp add: stub_platform_def js_def trim_def is_white_space_def is_line_terminator_def)

text \<open>
  C6. When the Word reader throws, the Word extractor throws an error whose message
  is \<open>Failed to extract text from Word document: \<close> followed by the reader's message;
  when the reader succeeds, it returns the trimmed text, or
  \<open>No text found in Word document\<close> when nothing is left after trimming.
\<close>

theorem extractTextFromWord_propagates:
  "(\<forall>e. extractRawText p buffer = Inl e \<longrightarrow>
      extractTextFromWord p buffer =
        Inl (Error (js ''Failed to extract text from Word document: '' @ message e))) \<and>
   (\<forall>val. extractRawText p buffer = Inr val \<longrightarrow>
      extractTextFromWord p buffer =
        Inr (if trim val = [] then js ''No text found in Word document'' else trim val))"
  by (auto simp: extractTextFromWord_def or_else_def split: sum.splits)

theorem extractTextFromWord_propagates_witness:
  "extractTextFromWord (stub_platform (Inl (Error (js ''bad zip''))) []) [0x50, 0x4B]
     = Inl (Error (js ''Failed to extract text from Word document: bad zip'')) \<and>
   extractTextFromWord (stub_platform (Inr (js '' Cell biology '')) []) [0x50, 0x4B]
     = Inr (js ''Cell biology'') \<and>
   extractTextFromWord (stub_platform (Inr (js ''  '')) []) [0x50, 0x4B]
     = Inr (js ''No text found in Word document'')"
  using
    extractTextFromWord_propagates
      [of "stub_platform (Inl (Error (js ''bad zip''))) []" "[0x50, 0x4B]"]
    extractTextFromWord_propagates
      [of "stub_platform (Inr (js '' Cell biology '')) []" "[0x50, 0x4B]"]
    extractTextFromWord_propagates
      [of "stub_platform (Inr (js ''  '')) []" "[0x50, 0x4B]"]
  by (simp add: stub_platform_def js_def trim_def is_white_space_def is_line_terminator_def)

subsection \<open>Dispatcher\<close>

lemma rethrow_Inr [simp]: "rethrow (Inr t) = Inr t"
  by (simp add: rethrow_def)

lemma rethrow_Inl [simp]:
  "rethrow (Inl e) = Inl (Error (js ''Failed to extract text from file: '' @ message e))"
  by (simp add: rethrow_def)

lemma rethrow_PDF [simp]: "rethrow (extractTextFromPDF p buffer) = extractTextFromPDF p buffer"
  by (simp add: extractTextFromPDF_def split: sum.splits)

lemma extractTextFromPDF_not_Inl: "extractTextFromPDF p buffer \<noteq> Inl e"
  by (auto simp: extractTextFromPDF_def split: sum.splits)

lemma extractTextFromWord_Inl:
  "extractTextFromWord p buffer = Inl e \<Longrightarrow>
     \<exists>cause. extractRawText p buffer = Inl cause \<and>
       e = Error (js ''Failed to extract text from Word document: '' @ message cause)"
  by (auto simp: extractTextFromWord_def split: sum.splits)

lemma extractTextFromFile_by_extension:
  assumes "\<not> declared_known mimetype"
  shows "extractTextFromFile p buffer mimetype filename =
      rethrow (let ext = toLowerCase p (extname p filename) in
          if ext = js ''.txt'' \<or> ext = js ''.md'' \<or> ext = js ''.csv''
          then Inr (toString_utf8 p buffer)
          else if ext = js ''.pdf'' then extractTextFromPDF p buffer
          else if ext = js ''.docx'' \<or> ext = js ''.doc'' then extractTextFromWord p buffer
          else
            let text = toString_utf8 p buffer in
            if length text > 0 \<and> length text < 1000000 then Inr text
            else Inl (Error (unsupported_message mimetype ext)))"
  using assms
  by (cases mimetype)
     (simp_all add: extractTextFromFile_def declared_known_def known_mimetypes_def Let_def)

lemma extractTextFromFile_fallback:
  assumes "\<not> declared_known mimetype"
    and "toLowerCase p (extname p filename) \<notin> set known_extensions"
  shows "extractTextFromFile p buffer mimetype filename =
     (let text = toString_utf8 p buffer in
      if 0 < length text \<and> length text < 1000000 then Inr text
      else Inl (Error (js ''Failed to extract text from file: ''
             @ unsupported_message mimetype (toLowerCase p (extname p filename)))))"
  using assms(2) unfolding extractTextFromFile_by_extension [OF assms(1)]
  by (simp add: known_extensions_def Let_def)

text \<open>
  C3. When the declared type is none of the four known ones and the lower-cased
  extension of the file name is none of the six recognised ones, extraction returns
  the decoded text exactly when its length (in UTF-16 code units, as \<open>text.length\<close>
  counts) is greater than 0 and less than 1000000; otherwise it throws the error
  \<open>Unsupported file type\<close>, whose message names the declared type (or \<open>unknown\<close>) and
  the extension (or \<open>no extension\<close>).
\<close>

theorem extractTextFromFile_sniffing:
  assumes "\<not> declared_known mimetype"
    and "toLowerCase p (extname p filename) \<notin> set known_extensions"
  shows "((\<exists>t. extractTextFromFile p buffer mimetype filename = Inr t) \<longleftrightarrow>
            0 < length (toString_utf8 p buffer) \<and> length (toString_utf8 p buffer) < 1000000) \<and>
         (0 < length (toString_utf8 p buffer) \<and> length (toString_utf8 p buffer) < 1000000 \<longrightarrow>
            extractTextFromFile p buffer mimetype filename = Inr (toString_utf8 p buffer)) \<and>
         (\<not> (0 < length (toString_utf8 p buffer) \<and> length (toString_utf8 p buffer) < 1000000) \<longrightarrow>
            extractTextFromFile p buffer mimetype filename =
              Inl (Error (js ''Failed to extract text from file: Unsupported file type: ''
                @ (case mimetype of None \<Rightarrow> js ''unknown''
                   | Some m \<Rightarrow> if m = [] then js ''unknown'' else m)
                @ js '' (''
                @ (if toLowerCase p (extname p filename) = [] then js ''no extension''
                   else toLowerCase p (extname p filename))
                @ js ''). Supported formats: PDF, Word (.docx, .doc), Text (.txt, .md, .csv)'')))"
  unfolding extractTextFromFile_fallback [OF assms]
  by (simp add: Let_def unsupported_message_def or_else_def js_def split: option.splits)

theorem extractTextFromFile_sniffing_witness:
  "extractTextFromFile (stub_platform (Inr []) (js ''a,b'')) [0x61, 0x2C, 0x62]
       (Some (js ''application/octet-stream'')) (js ''DATA.BIN'') = Inr (js ''a,b'') \<and>
   extractTextFromFile (stub_platform (Inr []) []) []
       (Some (js ''image/png'')) (js ''scan.png'') =
     Inl (Error (js ''Failed to extract text from file: Unsupported file type: image/png (.png). Supported formats: PDF, Word (.docx, .doc), Text (.txt, .md, .csv)'')) \<and>
   extractTextFromFile (stub_platform (Inr []) (replicate 1000000 0x61)) [] None (js ''dump'') =
     Inl (Error (js ''Failed to extract text from file: Unsupported file type: unknown (no extension). Supported formats: PDF, Word (.docx, .doc), Text (.txt, .md, .csv)''))"
proof -
  have k1: "\<not> declared_known (Some (js ''application/octet-stream''))"
    and k2: "\<not> declared_known (Some (js ''image/png''))"
    and k3: "\<not> declared_known None"
    by (simp_all add: declared_known_def known_mimetypes_def js_def)
  have e1: "toLowerCase (stub_platform (Inr []) (js ''a,b''))
              (extname (stub_platform (Inr []) (js ''a,b'')) (js ''DATA.BIN''))
            \<notin> set known_extensions"
    and e2: "toLowerCase (stub_platform (Inr []) [])
              (extname (stub_platform (Inr []) []) (js ''scan.png''))
            \<notin> set known_extensions"
    and e3: "toLowerCase (stub_platform (Inr []) (replicate 1000000 0x61))
              (extname (stub_platform (Inr []) (replicate 1000000 0x61)) (js ''dump''))
            \<notin> set known_extensions"
    by (simp_all add: stub_platform_def basename_extname_def ascii_lower_def known_extensions_def js_def)
  show ?thesis
    using extractTextFromFile_sniffing [OF k1 e1, of "[0x61, 0x2C, 0x62]"]
      extractTextFromFile_sniffing [OF k2 e2, of "[]"]
      extractTextFromFile_sniffing [OF k3 e3, of "[]"]
    by (simp add: stub_platform_def basename_extname_def ascii_lower_def js_def)
qed

text \<open>
  C7. The declared type is looked at first: \<open>text/plain\<close> gives the decoded text,
  \<open>application/pdf\<close> the PDF extractor, the two Word types the Word extractor,
  whatever the file name. When the declared type is none of these, the lower-cased
  extension decides: \<open>.txt\<close>, \<open>.md\<close>, \<open>.csv\<close> give the decoded text, \<open>.pdf\<close> the PDF
  extractor, \<open>.docx\<close> and \<open>.doc\<close> the Word extractor (whose error the dispatcher
  throws again with its own prefix).
\<close>

theorem extractTextFromFile_dispatch:
  "(mimetype = Some (js ''text/plain'') \<longrightarrow>
      extractTextFromFile p buffer mimetype filename = Inr (toString_utf8 p buffer)) \<and>
   (mimetype = Some (js ''application/pdf'') \<longrightarrow>
      extractTextFromFile p buffer mimetype filename = extractTextFromPDF p buffer) \<and>
   (mimetype = Some (js ''application/vnd.openxmlformats-officedocument.wordprocessingml.document'')
      \<or> mimetype = Some (js ''application/msword'') \<longrightarrow>
      extractTextFromFile p buffer mimetype filename = rethrow (extractTextFromWord p buffer)) \<and>
   (\<not> declared_known mimetype \<longrightarrow>
      (toLowerCase p (extname p filename) \<in> {js ''.txt'', js ''.md'', js ''.csv''} \<longrightarrow>
         extractTextFromFile p buffer mimetype filename = Inr (toString_utf8 p buffer)) \<and>
      (toLowerCase p (extname p filename) = js ''.pdf'' \<longrightarrow>
         extractTextFromFile p buffer mimetype filename = extractTextFromPDF p buffer) \<and>
      (toLowerCase p (extname p filename) \<in> {js ''.docx'', js ''.doc''} \<longrightarrow>
         extractTextFromFile p buffer mimetype filename = rethrow (extractTextFromWord p buffer)))"
proof -
  have a: "mimetype = Some (js ''text/plain'') \<longrightarrow>
      extractTextFromFile p buffer mimetype filename = Inr (toString_utf8 p buffer)"
    by (simp add: extractTextFromFile_def)
  have b: "mimetype = Some (js ''application/pdf'') \<longrightarrow>
      extractTextFromFile p buffer mimetype filename = extractTextFromPDF p buffer"
    by (simp add: extractTextFromFile_def js_def)
  have c: "mimetype = Some (js ''application/vnd.openxmlformats-officedocument.wordprocessingml.document'')
      \<or> mimetype = Some (js ''application/msword'') \<longrightarrow>
      extractTextFromFile p buffer mimetype filename = rethrow (extractTextFromWord p buffer)"
    by (auto simp: extractTextFromFile_def js_def)
  have e: "\<not> declared_known mimetype \<longrightarrow>
      (toLowerCase p (extname p filename) \<in> {js ''.txt'', js ''.md'', js ''.csv''} \<longrightarrow>
         extractTextFromFile p buffer mimetype filename = Inr (toString_utf8 p buffer)) \<and>
      (toLowerCase p (extname p filename) = js ''.pdf'' \<longrightarrow>
         extractTextFromFile p buffer mimetype filename = extractTextFromPDF p buffer) \<and>
      (toLowerCase p (extname p filename) \<in> {js ''.docx'', js ''.doc''} \<longrightarrow>
         extractTextFromFile p buffer mimetype filename = rethrow (extractTextFromWord p buffer))"
    by (auto simp: extractTextFromFile_by_extension Let_def js_def)
  from a b c e show ?thesis by blast
qed

theorem extractTextFromFile_dispatch_witness:
  "extractTextFromFile (stub_platform (Inl (Error (js ''bad''))) (js ''x'')) [0x78]
       (Some (js ''application/pdf'')) (js ''notes.docx'')
     = Inr (js ''PDF text extraction failed. The PDF might be image-based or corrupted. Please try copying the text manually.'') \<and>
   extractTextFromFile (stub_platform (Inl (Error (js ''bad''))) (js ''x'')) [0x78]
       (Some (js ''application/msword'')) (js ''notes.pdf'')
     = Inl (Error (js ''Failed to extract text from file: Failed to extract text from Word document: bad'')) \<and>
   extractTextFromFile (stub_platform (Inl (Error (js ''bad''))) (js ''x'')) [0x78]
       (Some (js ''text/plain'')) (js ''notes.pdf'') = Inr (js ''x'') \<and>
   extractTextFromFile (stub_platform (Inr (js '' Cell ''))  (js ''x'')) [0x78]
       (Some (js ''application/octet-stream'')) (js ''NOTES.PDF'') = Inr (js ''Cell'') \<and>
   extractTextFromFile (stub_platform (Inr (js '' Cell ''))  (js ''x'')) [0x78]
       None (js ''Notes.Doc'') = Inr (js ''Cell'') \<and>
   extractTextFromFile (stub_platform (Inr (js '' Cell ''))  (js ''x'')) [0x78]
       (Some []) (js ''notes.MD'') = Inr (js ''x'')"
  using
    extractTextFromFile_dispatch [of "Some (js ''application/pdf'')"
      "stub_platform (Inl (Error (js ''bad''))) (js ''x'')" "[0x78]" "js ''notes.docx''"]
    extractTextFromFile_dispatch [of "Some (js ''application/msword'')"
      "stub_platform (Inl (Error (js ''bad''))) (js ''x'')" "[0x78]" "js ''notes.pdf''"]
    extractTextFromFile_dispatch [of "Some (js ''text/plain'')"
      "stub_platform (Inl (Error (js ''bad''))) (js ''x'')" "[0x78]" "js ''notes.pdf''"]
    extractTextFromFile_dispatch [of "Some (js ''application/octet-stream'')"
      "stub_platform (Inr (js '' Cell '')) (js ''x'')" "[0x78]" "js ''NOTES.PDF''"]
    extractTextFromFile_dispatch [of "None"
      "stub_platform (Inr (js '' Cell '')) (js ''x'')" "[0x78]" "js ''Notes.Doc''"]
    extractTextFromFile_dispatch [of "Some []"
      "stub_platform (Inr (js '' Cell '')) (js ''x'')" "[0x78]" "js ''notes.MD''"]
  by (simp add: stub_platform_def basename_extname_def ascii_lower_def js_def declared_known_def known_mimetypes_def
      extractTextFromPDF_def safePdfParse_def extractTextFromWord_def or_else_def pdf_failed_text_def
      trim_def is_white_space_def is_line_terminator_def)

text \<open>
  C9, as the code has it. An error thrown by \<open>extractTextFromFile\<close> is a plain
  \<open>Error\<close> that carries a message and no kind. The message is
  \<open>Failed to extract text from file: \<close> followed either by the text about the
  unsupported file type or by \<open>Failed to extract text from Word document: \<close> and the
  Word reader's message; the two cases can be told apart by that text only, and the
  two texts are never equal.
\<close>

theorem extractTextFromFile_errors:
  assumes "extractTextFromFile p buffer mimetype filename = Inl e"
  shows "(e = Error (js ''Failed to extract text from file: ''
               @ unsupported_message mimetype (toLowerCase p (extname p filename)))
          \<or> (\<exists>cause. extractRawText p buffer = Inl cause \<and>
               e = Error (js ''Failed to extract text from file: ''
                     @ js ''Failed to extract text from Word document: '' @ message cause)))
       \<and> (\<forall>m x cause.
            js ''Failed to extract text from file: '' @ unsupported_message m x
            \<noteq> js ''Failed to extract text from file: ''
                 @ js ''Failed to extract text from Word document: '' @ cause)"
proof -
  from assms have "e = Error (js ''Failed to extract text from file: ''
               @ unsupported_message mimetype (toLowerCase p (extname p filename)))
          \<or> (\<exists>cause. extractRawText p buffer = Inl cause \<and>
               e = Error (js ''Failed to extract text from file: ''
                     @ js ''Failed to extract text from Word document: '' @ message cause))"
    unfolding extractTextFromFile_def Let_def rethrow_def
    by (auto split: if_splits sum.splits dest!: extractTextFromWord_Inl
        simp: extractTextFromPDF_not_Inl)
  moreover have "\<forall>m x cause.
            js ''Failed to extract text from file: '' @ unsupported_message m x
            \<noteq> js ''Failed to extract text from file: ''
                 @ js ''Failed to extract text from Word document: '' @ cause"
    by (simp add: unsupported_message_def js_def)
  ultimately show ?thesis by blast
qed

theorem extractTextFromFile_errors_witness:
  "Error (js ''Failed to extract text from file: Failed to extract text from Word document: bad zip'')
     = Error (js ''Failed to extract text from file: ''
               @ unsupported_message None
                   (toLowerCase (stub_platform (Inl (Error (js ''bad zip''))) [])
                      (extname (stub_platform (Inl (Error (js ''bad zip''))) []) (js ''a.doc''))))
   \<or> (\<exists>cause. extractRawText (stub_platform (Inl (Error (js ''bad zip''))) []) [0x50, 0x4B]
                  = Inl cause \<and>
         Error (js ''Failed to extract text from file: Failed to extract text from Word document: bad zip'')
           = Error (js ''Failed to extract text from file: ''
                     @ js ''Failed to extract text from Word document: '' @ message cause))"
proof -
  have "extractTextFromFile (stub_platform (Inl (Error (js ''bad zip''))) []) [0x50, 0x4B]
          None (js ''a.doc'')
        = Inl (Error (js ''Failed to extract text from file: Failed to extract text from Word document: bad zip''))"
    by (simp add: extractTextFromFile_def extractTextFromWord_def stub_platform_def
        basename_extname_def ascii_lower_def js_def)
  from extractTextFromFile_errors [OF this] show ?thesis by blast
qed

text \<open>
  C9, as the specification states it, fails where it says that the unsupported-type
  error reaches the caller verbatim: the dispatcher's own \<open>catch\<close> puts its prefix in
  front of it.
\<close>

theorem extractTextFromFile_unsupported_not_verbatim:
  "extractTextFromFile (stub_platform (Inr []) []) [] (Some (js ''image/png'')) (js ''scan.png'')
     = Inl (Error (js ''Failed to extract text from file: Unsupported file type: image/png (.png). Supported formats: PDF, Word (.docx, .doc), Text (.txt, .md, .csv)''))
   \<and> extractTextFromFile (stub_platform (Inr []) []) [] (Some (js ''image/png'')) (js ''scan.png'')
     \<noteq> Inl (Error (unsupported_message (Some (js ''image/png'')) (js ''.png'')))"
  by (simp add: extractTextFromFile_def stub_platform_def basename_extname_def ascii_lower_def
      unsupported_message_def or_else_def js_def)

subsection \<open>Trimming and the block classifier\<close>

lemma last_dropWhile_rev:
  assumes "dropWhile P (rev a) \<noteq> []"
  shows "last (dropWhile P (rev a)) = hd a"
proof -
  have "rev a = takeWhile P (rev a) @ dropWhile P (rev a)" by simp
  then have "last (rev a) = last (dropWhile P (rev a))"
    using assms by (metis last_appendR)
  moreover have "a \<noteq> []" using assms by auto
  ultimately show ?thesis by (simp add: last_rev)
qed

lemma trimmed_trim: "trimmed (trim s)"
proof (cases "trim s = []")
  case True
  then show ?thesis by (simp add: trimmed_def)
next
  case False
  define a where "a = dropWhile is_white_space s"
  define b where "b = dropWhile is_white_space (rev a)"
  have ts: "trim s = rev b" by (simp add: trim_def a_def b_def)
  with False have bne: "b \<noteq> []" by simp
  then have ane: "a \<noteq> []" by (auto simp: b_def)
  have "\<not> is_white_space (hd b)" using bne unfolding b_def by (rule hd_dropWhile)
  then have l: "\<not> is_white_space (last (trim s))" using bne by (simp add: ts last_rev)
  have "last b = hd a" using bne unfolding b_def by (rule last_dropWhile_rev)
  moreover have "\<not> is_white_space (hd a)" using ane unfolding a_def by (rule hd_dropWhile)
  ultimately have "\<not> is_white_space (hd (trim s))" using bne by (simp add: ts hd_rev)
  with l show ?thesis by (simp add: trimmed_def)
qed

lemma trim_no_trailing:
  assumes "s = [] \<or> \<not> is_white_space (last s)"
  shows "trim s = dropWhile is_white_space s"
proof (cases "dropWhile is_white_space s = []")
  case True
  then show ?thesis by (simp add: trim_def del: dropWhile_eq_Nil_conv)
next
  case False
  define a where "a = dropWhile is_white_space s"
  have ane: "a \<noteq> []" using False by (simp add: a_def)
  have "s = takeWhile is_white_space s @ a" by (simp add: a_def)
  then have "last s = last a" using ane by (metis last_appendR)
  moreover have "s \<noteq> []" using False by auto
  ultimately have "\<not> is_white_space (last a)" using assms by simp
  then have "\<not> is_white_space (hd (rev a))" using ane by (simp add: hd_rev)
  then have "dropWhile is_white_space (rev a) = rev a" using ane
    by (cases "rev a") auto
  then show ?thesis by (simp add: trim_def a_def)
qed

lemma trimmed_block_content_classifyLine: "trimmed (block_content (classifyLine line))"
  by (simp add: classifyLine_def Let_def trimmed_trim) (simp add: trimmed_def)

lemma classifyLine_trimmed_line:
  "case classifyLine line of
     Spacer \<Rightarrow> trim line = []
   | Header c \<Rightarrow> trim line = c
   | Paragraph c \<Rightarrow> trim line = c
   | Bullet c \<Rightarrow> (\<exists>w. list_all is_white_space w \<and> trim line = bullet_glyph # w @ c)"
proof -
  { assume b: "startsWith_bullet (trim line)"
    then obtain r where r: "trim line = bullet_glyph # r"
      by (auto simp: startsWith_bullet_def split: list.splits)
    have "trimmed (trim line)" by (rule trimmed_trim)
    then have "r = [] \<or> \<not> is_white_space (last r)"
      by (auto simp: trimmed_def r split: if_splits)
    then have "trim r = dropWhile is_white_space r" by (rule trim_no_trailing)
    then have "r = takeWhile is_white_space r @ trim r" by simp
    moreover have "list_all is_white_space (takeWhile is_white_space r)"
      by (simp add: list_all_iff) (meson set_takeWhileD)
    ultimately have "\<exists>w. list_all is_white_space w \<and>
        trim line = bullet_glyph # w @ trim (drop 1 (trim line))"
      unfolding r by (metis drop0 drop_Suc_Cons One_nat_def) }
  then show ?thesis
    by (auto simp: classifyLine_def Let_def)
qed

lemma split_lines_not_Nil [simp]: "split_lines s \<noteq> []"
  by (induction s) (auto split: list.splits)

lemma length_split_lines:
  "length (split_lines s) = Suc (length (filter (\<lambda>c. c = 0x0A) s))"
  by (induction s) (auto split: list.splits)

lemma join_lines_Cons: "ls \<noteq> [] \<Longrightarrow> join_lines (l # ls) = l @ 0x0A # join_lines ls"
  by (cases ls) simp_all

lemma join_lines_Cons_Cons: "join_lines ((c # l) # ls) = c # join_lines (l # ls)"
  by (cases ls) simp_all

lemma join_split_lines: "join_lines (split_lines s) = s"
proof (induction s)
  case Nil
  show ?case by simp
next
  case (Cons c cs)
  show ?case
  proof (cases "c = 0x0A")
    case True
    then show ?thesis using Cons by (simp add: join_lines_Cons)
  next
    case False
    obtain l ls where s: "split_lines cs = l # ls"
      using split_lines_not_Nil [of cs] by (cases "split_lines cs") auto
    with False Cons show ?thesis by (simp add: join_lines_Cons_Cons)
  qed
qed

text \<open>
  C10. The content of every block is trimmed: it is empty or neither begins nor ends
  with white space. Header and Paragraph hold the trimmed line, Bullet holds what
  follows the glyph, trimmed again.
\<close>

theorem classify_contents_trimmed:
  "\<forall>b \<in> set (classify text). trimmed (block_content b)"
  by (simp add: classify_def trimmed_block_content_classifyLine)

lemmas classifier_eval = js_def utf16_def trim_def is_white_space_def is_line_terminator_def classify_def classifyLine_def
  matches_header_def header_class_def header_glyphs_def startsWith_bullet_def bullet_glyph_def

theorem classify_contents_trimmed_witness:
  "Bullet (js ''Gradient descent'') \<in> set (classify (js ''  '' @ [0x2022] @ js ''  Gradient descent  ''))
   \<and> trimmed (js ''Gradient descent'')"
proof -
  have m: "Bullet (js ''Gradient descent'')
       \<in> set (classify (js ''  '' @ [0x2022] @ js ''  Gradient descent  ''))"
    by (simp add: classifier_eval)
  from classify_contents_trimmed [of "js ''  '' @ [0x2022] @ js ''  Gradient descent  ''"] m
  have "trimmed (block_content (Bullet (js ''Gradient descent'')))" by blast
  with m show ?thesis by simp
qed

text \<open>
  C5, as the code has it. There is exactly one block per line of
  \<open>cleanContent.split('\n')\<close>, in the order of the lines, the lines joined with line
  feeds are the text again, and every block fixes the trimmed line it came from: a
  Spacer comes from a line that is empty after trimming, the content of a Header or
  Paragraph is the trimmed line, and the trimmed line of a Bullet is the glyph,
  some white space and the content.
\<close>

theorem classify_one_block_per_line:
  "length (classify text) = length (split_lines text) \<and>
   length (split_lines text) = Suc (length (filter (\<lambda>c. c = 0x0A) text)) \<and>
   join_lines (split_lines text) = text \<and>
   (\<forall>i < length (split_lines text).
      classify text ! i = classifyLine (split_lines text ! i) \<and>
      (case classify text ! i of
         Spacer \<Rightarrow> trim (split_lines text ! i) = []
       | Header c \<Rightarrow> trim (split_lines text ! i) = c
       | Paragraph c \<Rightarrow> trim (split_lines text ! i) = c
       | Bullet c \<Rightarrow>
           (\<exists>w. list_all is_white_space w \<and> trim (split_lines text ! i) = bullet_glyph # w @ c)))"
  using classifyLine_trimmed_line
  by (simp add: classify_def length_split_lines join_split_lines)

theorem classify_one_block_per_line_witness:
  "classify ([0x2022] @ js ''  b '') = [Bullet (js ''b'')] \<and>
   (\<exists>w. list_all is_white_space w \<and> trim ([0x2022] @ js ''  b '') = bullet_glyph # w @ js ''b'')"
proof -
  have s: "split_lines ([0x2022] @ js ''  b '') = [[0x2022] @ js ''  b '']"
    and c: "classify ([0x2022] @ js ''  b '') = [Bullet (js ''b'')]"
    by (simp_all add: classifier_eval)
  note th = classify_one_block_per_line [of "[0x2022] @ js ''  b ''",
      THEN conjunct2, THEN conjunct2, THEN conjunct2, rule_format, of 0]
  have "\<exists>w. list_all is_white_space w \<and> trim ([0x2022] @ js ''  b '') = bullet_glyph # w @ js ''b''"
    using th unfolding s c by simp
  with c show ?thesis by blast
qed

text \<open>
  C5, as the specification states it, fails on a bullet line: the content of the
  block leaves the glyph out, so the contents alone do not give the trimmed lines.
\<close>

theorem classify_bullet_content_drops_glyph:
  "join_lines (map block_content (classify [0x2022, 0x61])) = [0x61] \<and>
   join_lines (map trim (split_lines [0x2022, 0x61])) = [0x2022, 0x61] \<and>
   join_lines (map block_content (classify [0x2022, 0x61]))
     \<noteq> join_lines (map trim (split_lines [0x2022, 0x61]))"
  by (simp add: classifier_eval)

text \<open>
  C4. The header test is made on the first code unit against the code units of the
  five glyphs, so a line that starts with another character sharing a surrogate
  with one of them, here U+1F600, is classified as a Header.
\<close>

theorem classifyLine_other_emoji_is_Header:
  "0x1F600 \<notin> set header_glyphs \<and>
   classifyLine (utf16 0x1F600 @ js '' Great job'') = Header (utf16 0x1F600 @ js '' Great job'')"
  by (simp add: classifier_eval)

section \<open>The clean-up chains\<close>

subsection \<open>Erasing characters\<close>

inductive_cases erases_NilE: "erases P [] u"
inductive_cases erases_Cons1E: "erases P (x # s) u"

lemma erases_refl: "erases P s s"
  by (induction s) (auto intro: erases.intros)

lemma erases_trans: "erases P s t \<Longrightarrow> erases P t u \<Longrightarrow> erases P s u"
proof (induction arbitrary: u rule: erases.induct)
  case erases_Nil
  then show ?case by simp
next
  case (erases_keep s t x)
  from erases_keep.prems erases_keep.IH show ?case
    by (auto elim!: erases_Cons1E intro: erases.intros)
next
  case (erases_drop x s t)
  then show ?case by (auto intro: erases.intros)
qed

lemma erases_append_keep: "erases P s t \<Longrightarrow> erases P (u @ s) (u @ t)"
  by (induction u) (auto intro: erases.intros)

lemma erases_append_drop: "\<forall>x \<in> set u. P x \<Longrightarrow> erases P s t \<Longrightarrow> erases P (u @ s) t"
  by (induction u) (auto intro: erases.intros)

lemma erases_mono: "erases P s t \<Longrightarrow> \<forall>x \<in> set s. P x \<longrightarrow> Q x \<Longrightarrow> erases Q s t"
  by (induction rule: erases.induct) (auto intro: erases.intros)

lemma erases_set: "erases P s t \<Longrightarrow> set t \<subseteq> set s"
  by (induction rule: erases.induct) auto

subsection \<open>The pieces of a match\<close>

lemma literal_Some: "literal d s = Some r \<longleftrightarrow> s = d @ r"
  by (induction d s rule: literal.induct) auto

lemma lazy_any_Some:
  "lazy_any k s = Some (cap, r) \<Longrightarrow>
     \<exists>rest. s = cap @ rest \<and> k rest = Some r \<and> (\<forall>x \<in> set cap. \<not> is_line_terminator x)"
proof (induction s arbitrary: cap)
  case Nil
  then show ?case by auto
next
  case (Cons c cs)
  show ?case
  proof (cases "k (c # cs)")
    case (Some r')
    with Cons.prems show ?thesis by auto
  next
    case None
    with Cons.prems obtain cap' where nl: "\<not> is_line_terminator c"
      and l: "lazy_any k cs = Some (cap', r)" and c: "cap = c # cap'"
      by (auto split: if_splits)
    from Cons.IH [OF l] nl c show ?thesis by auto
  qed
qed

lemma wrap_rule_Some:
  assumes "wrap_rule d s = Some (cap, r)"
  shows "s = d @ cap @ d @ r \<and> (\<forall>x \<in> set cap. \<not> is_line_terminator x)"
proof -
  from assms obtain r0 where l: "literal d s = Some r0" and z: "lazy_any (literal d) r0 = Some (cap, r)"
    by (auto simp: wrap_rule_def split: option.splits)
  from lazy_any_Some [OF z] l show ?thesis by (auto simp: literal_Some)
qed

lemma heading_rule_Some:
  "heading_rule d s = Some (rep, r) \<Longrightarrow>
     rep = [] \<and> (\<exists>t. s = d @ t \<and> r = dropWhile is_white_space t)"
  by (auto simp: heading_rule_def literal_Some split: option.splits)

lemma link_rule_Some:
  assumes "link_rule s = Some (cap, r)"
  shows "\<exists>target. s = js ''['' @ cap @ js '']('' @ target @ js '')'' @ r \<and>
          (\<forall>x \<in> set cap. \<not> is_line_terminator x) \<and>
          (\<forall>x \<in> set target. \<not> is_line_terminator x)"
proof -
  let ?k = "\<lambda>t. case literal (js '']('') t of
                   None \<Rightarrow> None
                 | Some u \<Rightarrow> map_option snd (lazy_any (literal (js '')'')) u)"
  from assms obtain r0 where l: "literal (js ''['') s = Some r0"
    and z: "lazy_any ?k r0 = Some (cap, r)"
    by (auto simp: link_rule_def split: option.splits)
  from lazy_any_Some [OF z] obtain rest where
    r0: "r0 = cap @ rest" and k: "?k rest = Some r" and nl: "\<forall>x \<in> set cap. \<not> is_line_terminator x"
    by blast
  from k obtain u target where u: "literal (js '']('') rest = Some u"
    and t: "lazy_any (literal (js '')'')) u = Some (target, r)"
    by (auto split: option.splits)
  from lazy_any_Some [OF t] u l r0 nl show ?thesis
    by (auto simp: literal_Some)
qed

lemma cuts_wrap_rule: "d \<noteq> [] \<Longrightarrow> \<forall>x \<in> set d. P x \<Longrightarrow> cuts P (wrap_rule d)"
  unfolding cuts_def by (blast dest: wrap_rule_Some)

lemma cuts_heading_rule: "d \<noteq> [] \<Longrightarrow> cuts (\<lambda>x. True) (heading_rule d)"
  unfolding cuts_def
proof (intro allI impI)
  fix s rep rest
  assume d: "d \<noteq> []" and h: "heading_rule d s = Some (rep, rest)"
  from heading_rule_Some [OF h] obtain t where
    r: "rep = []" and s: "s = d @ t" and rest: "rest = dropWhile is_white_space t" by blast
  have "s = d @ rep @ takeWhile is_white_space t @ rest" by (simp add: r s rest)
  with d show "\<exists>a b. s = a @ rep @ b @ rest \<and> a \<noteq> [] \<and> (\<forall>x\<in>set a. True) \<and> (\<forall>x\<in>set b. True)"
    by blast
qed

lemma cuts_link_rule: "cuts (\<lambda>x. \<not> is_line_terminator x) link_rule"
  unfolding cuts_def
proof (intro allI impI)
  fix s rep rest
  assume "link_rule s = Some (rep, rest)"
  from link_rule_Some [OF this] obtain target where
    s: "s = js ''['' @ rep @ js '']('' @ target @ js '')'' @ rest"
    and t: "\<forall>x \<in> set target. \<not> is_line_terminator x" by blast
  have "s = js ''['' @ rep @ (js '']('' @ target @ js '')'') @ rest" by (simp add: s)
  moreover have "\<forall>x \<in> set (js '']('' @ target @ js '')''). \<not> is_line_terminator x"
    using t by (auto simp: js_def is_line_terminator_def)
  moreover have "js ''['' \<noteq> []" "\<forall>x \<in> set (js ''[''). \<not> is_line_terminator x"
    by (auto simp: js_def is_line_terminator_def)
  ultimately show "\<exists>a b. s = a @ rep @ b @ rest \<and> a \<noteq> [] \<and>
      (\<forall>x\<in>set a. \<not> is_line_terminator x) \<and> (\<forall>x\<in>set b. \<not> is_line_terminator x)"
    by blast
qed

lemma cuts_mono: "cuts P m \<Longrightarrow> \<forall>x. P x \<longrightarrow> Q x \<Longrightarrow> cuts Q m"
  unfolding cuts_def by blast

subsection \<open>Global replacement\<close>

lemma cuts_shorter:
  "cuts P m \<Longrightarrow> m s = Some (rep, rest) \<Longrightarrow> length rest < length s"
  unfolding cuts_def by fastforce

lemma replace_all_Nil: "cuts P m \<Longrightarrow> replace_all m [] = []"
  by (auto simp: cuts_def split: option.splits)

lemma replace_all_Some:
  "cuts P m \<Longrightarrow> m (c # cs) = Some (rep, rest) \<Longrightarrow>
     replace_all m (c # cs) = rep @ replace_all m rest"
  using cuts_shorter [of P m "c # cs" rep rest] by simp

lemma replace_all_None:
  "m (c # cs) = None \<Longrightarrow> replace_all m (c # cs) = c # replace_all m cs"
  by simp

lemma replace_all_erases:
  assumes m: "cuts P m"
  shows "erases P s (replace_all m s)"
proof (induction "length s" arbitrary: s rule: less_induct)
  case less
  show ?case
  proof (cases s)
    case Nil
    then show ?thesis by (simp add: replace_all_Nil [OF m] erases.intros del: replace_all.simps)
  next
    case (Cons c cs)
    show ?thesis
    proof (cases "m (c # cs)")
      case None
      have "erases P cs (replace_all m cs)" using less Cons by simp
      then show ?thesis unfolding Cons replace_all_None [of m c cs, OF None] by (rule erases_keep)
    next
      case (Some pr)
      obtain rep rest where pr: "pr = (rep, rest)" by (cases pr)
      from m Some pr obtain a b where
        s: "c # cs = a @ rep @ b @ rest" and a: "\<forall>x \<in> set a. P x" and b: "\<forall>x \<in> set b. P x"
        unfolding cuts_def by blast
      have "length rest < length s" using s Cons by (metis cuts_shorter m Some pr)
      then have "erases P rest (replace_all m rest)" by (rule less)
      then have e: "erases P (a @ rep @ b @ rest) (rep @ replace_all m rest)"
        using a b by (intro erases_append_drop erases_append_keep)
      have r: "replace_all m s = rep @ replace_all m rest"
        unfolding Cons by (rule replace_all_Some [of P m c cs rep rest, OF m Some [unfolded pr]])
      have s': "s = a @ rep @ b @ rest" using s Cons by simp
      show ?thesis by (simp only: r) (simp only: s' e)
    qed
  qed
qed

lemma replace_all_set: "cuts P m \<Longrightarrow> set (replace_all m s) \<subseteq> set s"
  by (rule erases_set [OF replace_all_erases])

subsection \<open>Where an expression does not match\<close>

lemma replace_all_no_match: "\<not> test m s \<Longrightarrow> replace_all m s = s"
  by (induction s) (auto split: option.splits)


lemma test_needs_first:
  assumes "\<And>t r. m t = Some r \<Longrightarrow> t \<noteq> [] \<and> hd t = c"
  shows "test m s \<Longrightarrow> c \<in> set s"
proof (induction s)
  case Nil
  then show ?case using assms [of "[]"] by auto
next
  case (Cons x xs)
  then show ?case using assms [of "x # xs"] by auto
qed

lemma test_wrap_rule_needs: "test (wrap_rule (c # ds)) s \<Longrightarrow> c \<in> set s"
proof (rule test_needs_first)
  fix t r assume "wrap_rule (c # ds) t = Some r"
  then show "t \<noteq> [] \<and> hd t = c"
    by (cases r) (auto dest!: wrap_rule_Some)
qed


lemma test_link_rule_needs: "test link_rule s \<Longrightarrow> 0x5B \<in> set s"
proof (rule test_needs_first)
  fix t r assume "link_rule t = Some r"
  then show "t \<noteq> [] \<and> hd t = 0x5B"
    by (cases r) (auto dest!: link_rule_Some simp: js_def)
qed

subsection \<open>One-character wrappers\<close>

lemma lazy_any_literal1:
  "\<not> is_line_terminator c \<Longrightarrow> (lazy_any (literal [c]) s \<noteq> None) = reach c s"
  by (induction s) (auto split: option.splits)

lemma wrap_rule1_Cons:
  "\<not> is_line_terminator c \<Longrightarrow> (wrap_rule [c] (x # s) \<noteq> None) = (x = c \<and> reach c s)"
  using lazy_any_literal1 [of c s] by (auto simp: wrap_rule_def)











subsection \<open>Heading prefixes\<close>


subsection \<open>The rules of the two chains\<close>


lemma response_rules_eq: "set response_rules = insert link_rule (set display_rules)"
  by (auto simp: response_rules_def display_rules_def)

lemma cuts_response_rules: "r \<in> set response_rules \<Longrightarrow> cuts (\<lambda>x. True) r"
  unfolding response_rules_def
  by (auto simp: js_def intro!: cuts_wrap_rule cuts_heading_rule cuts_mono [OF cuts_link_rule])

lemma replace_all_rule_set: "r \<in> set response_rules \<Longrightarrow> set (replace_all r s) \<subseteq> set s"
  by (rule replace_all_set [OF cuts_response_rules])

lemma fold_replace_all_erases:
  "\<forall>r \<in> set rules. cuts P r \<Longrightarrow> erases P s (fold replace_all rules s)"
proof (induction rules arbitrary: s)
  case Nil
  show ?case by (simp add: erases_refl)
next
  case (Cons r rules)
  have "erases P s (replace_all r s)" using Cons.prems by (simp add: replace_all_erases)
  moreover have "erases P (replace_all r s) (fold replace_all rules (replace_all r s))"
    using Cons by simp
  ultimately show ?case by (simp add: erases_trans)
qed


subsection \<open>A match makes the text shorter\<close>

lemma erases_length: "erases P s t \<Longrightarrow> length t \<le> length s"
  by (induction rule: erases.induct) auto

lemma replace_all_shorter:
  assumes m: "cuts P m"
  shows "test m s \<Longrightarrow> length (replace_all m s) < length s"
proof (induction "length s" arbitrary: s rule: less_induct)
  case less
  show ?case
  proof (cases s)
    case Nil
    with less.prems m show ?thesis by (auto simp: cuts_def)
  next
    case (Cons c cs)
    show ?thesis
    proof (cases "m (c # cs)")
      case None
      then have "test m cs" using less.prems Cons by simp
      then have "length (replace_all m cs) < length cs" using less.hyps Cons by simp
      then show ?thesis unfolding Cons replace_all_None [of m c cs, OF None] by simp
    next
      case (Some pr)
      obtain rep rest where pr: "pr = (rep, rest)" by (cases pr)
      from m Some pr obtain a b where
        s: "c # cs = a @ rep @ b @ rest" and a: "a \<noteq> []"
        unfolding cuts_def by blast
      have "length (replace_all m rest) \<le> length rest"
        by (rule erases_length [OF replace_all_erases [OF m]])
      moreover have "length (c # cs) = length a + length rep + length b + length rest"
        by (simp add: s)
      ultimately show ?thesis
        unfolding Cons replace_all_Some [of P m c cs rep rest, OF m Some [unfolded pr]]
        using a by (cases a) simp_all
    qed
  qed
qed



subsection \<open>What the chains leave of the heading prefixes\<close>






lemmas cleanup_eval = js_def is_white_space_def is_line_terminator_def wrap_rule_def
  heading_rule_def link_rule_def cleanContent_def cleanResponse_def display_rules_def
  response_rules_def

subsection \<open>The heading rules as one pass\<close>

lemma strip_hashes_Nil: "strip_hashes [] = []"
  by (simp add: heading_rule_def)

lemma strip_hashes_hash: "strip_hashes (0x23 # cs) = strip_hashes (dropWhile is_white_space cs)"
  by (simp add: heading_rule_def less_Suc_eq_le length_dropWhile_le)

lemma strip_hashes_other: "c \<noteq> 0x23 \<Longrightarrow> strip_hashes (c # cs) = c # strip_hashes cs"
  by (simp add: heading_rule_def)

lemma hash_not_space: "\<not> is_white_space 0x23"
  by (simp add: is_white_space_def is_line_terminator_def)

lemma strip_hashes_prefix:
  "d \<noteq> [] \<Longrightarrow> set d \<subseteq> {0x23} \<Longrightarrow> strip_hashes (d @ t) = strip_hashes (dropWhile is_white_space t)"
proof (induction d)
  case Nil
  then show ?case by simp
next
  case (Cons a d)
  then have a: "a = 0x23" by simp
  show ?case
  proof (cases d)
    case Nil
    then show ?thesis by (simp add: a strip_hashes_hash del: replace_all.simps)
  next
    case (Cons b d')
    then have "b = 0x23" using Cons.prems by simp
    then have "dropWhile is_white_space (d @ t) = d @ t" using Cons by (simp add: hash_not_space)
    moreover have "strip_hashes (d @ t) = strip_hashes (dropWhile is_white_space t)"
      using Cons.IH Cons.prems Cons by simp
    ultimately show ?thesis by (simp add: a strip_hashes_hash del: replace_all.simps)
  qed
qed

lemma heading_rule_match:
  assumes "d \<noteq> []" and "literal d s = Some t"
  shows "replace_all (heading_rule d) s = replace_all (heading_rule d) (dropWhile is_white_space t)"
proof -
  have m: "cuts (\<lambda>x. True) (heading_rule d)" by (rule cuts_heading_rule [OF assms(1)])
  from assms obtain c cs where s: "s = c # cs" by (cases s; cases d) auto
  have "heading_rule d (c # cs) = Some ([], dropWhile is_white_space t)"
    using assms(2) by (simp add: heading_rule_def s)
  from replace_all_Some [OF m this] show ?thesis by (simp add: s del: replace_all.simps)
qed

lemma heading_rule_no_match:
  assumes "literal d (c # cs) = None"
  shows "replace_all (heading_rule d) (c # cs) = c # replace_all (heading_rule d) cs"
  using assms by (simp add: heading_rule_def)

lemma heading_rule_space:
  assumes d: "d \<noteq> []" "set d \<subseteq> {0x23}" and c: "is_white_space c"
  shows "replace_all (heading_rule d) (c # cs) = c # replace_all (heading_rule d) cs"
proof (rule heading_rule_no_match)
  from d obtain d' where "d = 0x23 # d'" by (cases d) auto
  moreover have "c \<noteq> 0x23" using c hash_not_space by auto
  ultimately show "literal d (c # cs) = None" by simp
qed

lemma heading_rule_spaces:
  assumes d: "d \<noteq> []" "set d \<subseteq> {0x23}"
  shows "\<forall>x \<in> set w. is_white_space x \<Longrightarrow>
     replace_all (heading_rule d) (w @ r) = w @ replace_all (heading_rule d) r"
  by (induction w) (simp_all add: heading_rule_space [OF d] del: replace_all.simps)

lemma heading_rule_head:
  assumes d: "d \<noteq> []" "set d \<subseteq> {0x23}"
  shows "s = [] \<or> \<not> is_white_space (hd s) \<Longrightarrow>
     replace_all (heading_rule d) s = [] \<or> \<not> is_white_space (hd (replace_all (heading_rule d) s))"
proof (induction "length s" arbitrary: s rule: less_induct)
  case less
  show ?case
  proof (cases s)
    case Nil
    then show ?thesis
      by (simp add: replace_all_Nil [OF cuts_heading_rule [OF d(1)]] del: replace_all.simps)
  next
    case (Cons c cs)
    show ?thesis
    proof (cases "literal d s")
      case None
      then show ?thesis using less.prems Cons
        by (simp add: heading_rule_no_match del: replace_all.simps)
    next
      case (Some t)
      then have st: "s = d @ t" by (simp add: literal_Some)
      have "length (dropWhile is_white_space t) < length s"
        using d(1) length_dropWhile_le [of is_white_space t] by (cases d) (simp_all add: st)
      moreover have "dropWhile is_white_space t = [] \<or> \<not> is_white_space (hd (dropWhile is_white_space t))"
        using hd_dropWhile [of is_white_space t] by blast
      ultimately show ?thesis
        unfolding heading_rule_match [OF d(1) Some] by (rule less.hyps)
    qed
  qed
qed

lemma dropWhile_head: "s = [] \<or> \<not> P (hd s) \<Longrightarrow> dropWhile P s = s"
  by (cases s) auto

lemma heading_rule_dropWhile:
  assumes d: "d \<noteq> []" "set d \<subseteq> {0x23}"
  shows "dropWhile is_white_space (replace_all (heading_rule d) s)
       = replace_all (heading_rule d) (dropWhile is_white_space s)"
proof -
  let ?w = "takeWhile is_white_space s" and ?r = "dropWhile is_white_space s"
  have w: "\<forall>x \<in> set ?w. is_white_space x" by (auto dest: set_takeWhileD)
  have "replace_all (heading_rule d) (?w @ ?r) = ?w @ replace_all (heading_rule d) ?r"
    by (rule heading_rule_spaces [OF d w])
  then have "dropWhile is_white_space (replace_all (heading_rule d) s)
      = dropWhile is_white_space (?w @ replace_all (heading_rule d) ?r)" by simp
  also have "\<dots> = dropWhile is_white_space (replace_all (heading_rule d) ?r)"
    using w by (simp add: dropWhile_append2)
  also have "\<dots> = replace_all (heading_rule d) ?r"
    by (rule dropWhile_head, rule heading_rule_head [OF d])
       (use hd_dropWhile [of is_white_space s] in blast)
  finally show ?thesis .
qed

lemma strip_hashes_heading_rule:
  assumes d: "d \<noteq> []" "set d \<subseteq> {0x23}"
  shows "strip_hashes (replace_all (heading_rule d) s) = strip_hashes s"
proof (induction "length s" arbitrary: s rule: less_induct)
  case less
  show ?case
  proof (cases s)
    case Nil
    then show ?thesis
      by (simp add: replace_all_Nil [OF cuts_heading_rule [OF d(1)]] del: replace_all.simps)
  next
    case (Cons c cs)
    show ?thesis
    proof (cases "literal d s")
      case (Some t)
      then have st: "s = d @ t" by (simp add: literal_Some)
      have "length (dropWhile is_white_space t) < length s"
        using d(1) length_dropWhile_le [of is_white_space t] by (cases d) (simp_all add: st)
      then have "strip_hashes (replace_all (heading_rule d) (dropWhile is_white_space t))
          = strip_hashes (dropWhile is_white_space t)" by (rule less.hyps)
      then show ?thesis
        unfolding heading_rule_match [OF d(1) Some] by (simp only: st strip_hashes_prefix [OF d])
    next
      case None
      have r: "replace_all (heading_rule d) (c # cs) = c # replace_all (heading_rule d) cs"
        by (rule heading_rule_no_match) (use None Cons in simp)
      show ?thesis
      proof (cases "c = 0x23")
        case False
        have "strip_hashes (replace_all (heading_rule d) cs) = strip_hashes cs"
          using less.hyps [of cs] Cons by simp
        then show ?thesis unfolding Cons r by (simp only: strip_hashes_other [OF False])
      next
        case True
        have "length (dropWhile is_white_space cs) < length s"
          using length_dropWhile_le [of is_white_space cs] Cons by simp
        then have "strip_hashes (replace_all (heading_rule d) (dropWhile is_white_space cs))
            = strip_hashes (dropWhile is_white_space cs)" by (rule less.hyps)
        then show ?thesis
          unfolding Cons r unfolding True strip_hashes_hash heading_rule_dropWhile [OF d] .
      qed
    qed
  qed
qed

lemma fold_headings:
  "fold replace_all [heading_rule (js ''###''), heading_rule (js ''##''), heading_rule (js ''#'')] s
     = strip_hashes s"
proof -
  have "strip_hashes (replace_all (heading_rule [0x23, 0x23]) (replace_all (heading_rule [0x23, 0x23, 0x23]) s))
      = strip_hashes s"
    by (simp add: strip_hashes_heading_rule del: replace_all.simps)
  then show ?thesis by (simp add: js_def del: replace_all.simps)
qed

subsection \<open>The backtick rule\<close>

lemma tick_not_terminator: "\<not> is_line_terminator 0x60"
  by (simp add: is_line_terminator_def)

lemma tick_not_space: "\<not> is_white_space 0x60"
  by (simp add: is_white_space_def is_line_terminator_def)

lemma cuts_tick: "cuts (\<lambda>x. \<not> is_line_terminator x) (wrap_rule [0x60])"
  by (rule cuts_wrap_rule) (simp_all add: tick_not_terminator)

lemma strip_ticks_Nil: "strip_ticks [] = []"
  by (rule replace_all_Nil [OF cuts_tick])

lemma strip_ticks_other: "c \<noteq> 0x60 \<Longrightarrow> strip_ticks (c # cs) = c # strip_ticks cs"
  by (simp add: wrap_rule_def)

lemma strip_ticks_open:
  assumes "\<not> reach 0x60 cs"
  shows "strip_ticks (0x60 # cs) = 0x60 # strip_ticks cs"
proof (rule replace_all_None)
  have "\<not> (wrap_rule [0x60] (0x60 # cs) \<noteq> None)"
    unfolding wrap_rule1_Cons [OF tick_not_terminator] using assms by simp
  then show "wrap_rule [0x60] (0x60 # cs) = None" by blast
qed

lemma lazy_any_literal1_append:
  "c \<notin> set a \<Longrightarrow> \<forall>x \<in> set a. \<not> is_line_terminator x \<Longrightarrow>
     lazy_any (literal [c]) (a @ c # r) = Some (a, r)"
  by (induction a) auto

lemma strip_ticks_pair:
  assumes "0x60 \<notin> set a" and "\<forall>x \<in> set a. \<not> is_line_terminator x"
  shows "strip_ticks (0x60 # a @ 0x60 # r) = a @ strip_ticks r"
proof -
  have "wrap_rule [0x60] (0x60 # a @ 0x60 # r) = Some (a, r)"
    using lazy_any_literal1_append [OF assms, of r] by (simp add: wrap_rule_def)
  from replace_all_Some [OF cuts_tick this] show ?thesis .
qed

lemma reach_split:
  "reach c s \<Longrightarrow>
     \<exists>a r. s = a @ c # r \<and> c \<notin> set a \<and> (\<forall>x \<in> set a. \<not> is_line_terminator x)"
proof (induction s)
  case Nil
  then show ?case by simp
next
  case (Cons x xs)
  show ?case
  proof (cases "x = c")
    case True
    then have "x # xs = [] @ c # xs" by simp
    then show ?thesis by (metis empty_iff empty_set)
  next
    case False
    with Cons obtain a r where "xs = a @ c # r" "c \<notin> set a" "\<forall>x \<in> set a. \<not> is_line_terminator x"
      and "\<not> is_line_terminator x" by auto
    with False have "x # xs = (x # a) @ c # r \<and> c \<notin> set (x # a) \<and>
        (\<forall>y \<in> set (x # a). \<not> is_line_terminator y)" by auto
    then show ?thesis by blast
  qed
qed

lemma strip_ticks_spaces:
  "\<forall>x \<in> set w. is_white_space x \<Longrightarrow> strip_ticks (w @ r) = w @ strip_ticks r"
proof (induction w)
  case Nil
  show ?case by simp
next
  case (Cons c w)
  then have "c \<noteq> 0x60" using tick_not_space by auto
  with Cons show ?case by (simp add: strip_ticks_other del: replace_all.simps)
qed


lemma reach_in_set: "reach c s \<Longrightarrow> c \<in> set s"
  by (induction s) auto

lemma reach_spaces:
  "\<forall>x \<in> set w. is_white_space x \<and> \<not> is_line_terminator x \<Longrightarrow>
     reach 0x60 (w @ r) = reach 0x60 r"
  using tick_not_space by (induction w) auto

subsection \<open>Markers that the heading rules bring together\<close>














subsection \<open>Lines that the heading rules join\<close>















lemma tail_of_Cons:
  "tail_of (a # l) = (if 0x23 \<in> set l then tail_of l else if a = 0x23 then l else a # l)"
proof (cases "0x23 \<in> set l")
  case True
  then have "takeWhile (\<lambda>a. a \<noteq> 0x23) (rev l @ [a]) = takeWhile (\<lambda>a. a \<noteq> 0x23) (rev l)"
    using takeWhile_append1 [of "0x23" "rev l" "\<lambda>a. a \<noteq> 0x23" "[a]"] by simp
  with True show ?thesis by (simp add: tail_of_def)
next
  case False
  then have "takeWhile (\<lambda>a. a \<noteq> 0x23) (rev l @ [a]) = rev l @ takeWhile (\<lambda>a. a \<noteq> 0x23) [a]"
    by (intro takeWhile_append2) auto
  with False show ?thesis by (simp add: tail_of_def)
qed

lemma head_of_Cons:
  "head_of (a # l) = (if 0x23 \<in> set l then a # head_of l else [])"
proof (cases "0x23 \<in> set l")
  case True
  then have "dropWhile (\<lambda>a. a \<noteq> 0x23) (rev l @ [a]) = dropWhile (\<lambda>a. a \<noteq> 0x23) (rev l) @ [a]"
    using dropWhile_append1 [of "0x23" "rev l" "\<lambda>a. a \<noteq> 0x23" "[a]"] by simp
  moreover obtain b bs where "dropWhile (\<lambda>a. a \<noteq> 0x23) (rev l) = b # bs"
    using True by (cases "dropWhile (\<lambda>a. a \<noteq> 0x23) (rev l)") (auto simp: dropWhile_eq_Nil_conv)
  ultimately show ?thesis using True by (simp add: head_of_def)
next
  case False
  then have "dropWhile (\<lambda>a. a \<noteq> 0x23) (rev l @ [a]) = dropWhile (\<lambda>a. a \<noteq> 0x23) [a]"
    by (intro dropWhile_append2) auto
  with False show ?thesis by (simp add: head_of_def)
qed

lemma tail_of_Nil [simp]: "tail_of [] = []" by (simp add: tail_of_def)

lemma head_of_Nil [simp]: "head_of [] = []" by (simp add: head_of_def)


lemma head_of_no_hash: "0x23 \<notin> set l \<Longrightarrow> head_of l = []"
  by (cases l) (auto simp: head_of_Cons)

lemma head_tail: "0x23 \<in> set l \<Longrightarrow> l = head_of l @ 0x23 # tail_of l"
  by (induction l) (auto simp: tail_of_Cons head_of_Cons head_of_no_hash)




















subsection \<open>Tidy texts\<close>

lemma space_not_tick: "is_white_space c \<Longrightarrow> c \<noteq> 0x60"
  using tick_not_space by auto

lemma all_spaces_dropWhile:
  "dropWhile is_white_space a = [] \<Longrightarrow> \<forall>x \<in> set a. is_white_space x"
  by (induction a) (auto split: if_splits)


lemma tidy_spaces:
  "\<forall>x \<in> set w. is_white_space x \<and> \<not> is_line_terminator x \<Longrightarrow>
     tidy M ins u (w @ r) \<Longrightarrow> tidy M ins u r"
proof (induction w)
  case Nil
  then show ?case by simp
next
  case (Cons c w)
  then have "c \<noteq> 0x60" by (simp add: space_not_tick)
  with Cons show ?case by simp
qed

lemma tidy_dropWhile_space:
  "tidy M ins u s \<Longrightarrow> \<exists>u'. tidy M ins u' (dropWhile is_white_space s)"
proof (induction s arbitrary: u)
  case Nil
  show ?case by simp
next
  case (Cons c s)
  show ?case
  proof (cases "is_white_space c")
    case True
    then have "c \<noteq> 0x60" by (rule space_not_tick)
    with Cons.prems have "tidy M ins (u \<and> \<not> is_line_terminator c) s" by simp
    then have "\<exists>u'. tidy M ins u' (dropWhile is_white_space s)" by (rule Cons.IH)
    with True show ?thesis by simp
  next
    case False
    with Cons.prems show ?thesis by auto
  qed
qed

lemma tidy_span:
  "0x60 \<notin> set a \<Longrightarrow> tidy M True u (a @ 0x60 # rest) \<Longrightarrow> \<exists>u'. tidy M False u' rest"
  by (induction a arbitrary: u) auto

text \<open>What stands at the head of the text behind the white space after a \<open>#\<close>.\<close>

lemma after_hash_spaces:
  "\<forall>x \<in> set w. is_white_space x \<Longrightarrow> after_hash no_marks ins u (w @ r) \<Longrightarrow>
     after_hash no_marks ins u r"
  by (induction w) auto

lemma after_hash_terminator:
  "\<forall>x \<in> set w. is_white_space x \<Longrightarrow> \<exists>x \<in> set w. is_line_terminator x \<Longrightarrow>
     after_hash no_marks ins True (w @ r) \<Longrightarrow> 0x60 \<notin> set r"
  by (induction w) auto

text \<open>Behind a removed backtick no white space is left in front.\<close>

lemma strip_ticks_head:
  "after_ticks no_marks False s \<Longrightarrow> strip_ticks s = [] \<or> \<not> is_white_space (hd (strip_ticks s))"
proof (induction "length s" arbitrary: s rule: less_induct)
  case less
  show ?case
  proof (cases s)
    case Nil
    then show ?thesis by (simp add: strip_ticks_Nil del: replace_all.simps)
  next
    case (Cons c cs)
    show ?thesis
    proof (cases "c = 0x60")
      case False
      with less.prems Cons show ?thesis
        by (simp add: strip_ticks_other del: replace_all.simps split: if_splits)
    next
      case True
      show ?thesis
      proof (cases "reach 0x60 cs")
        case False
        then show ?thesis unfolding Cons True
          by (simp add: strip_ticks_open tick_not_space del: replace_all.simps)
      next
        case r: True
        from reach_split [OF r] obtain a rest where cs: "cs = a @ 0x60 # rest"
          and a: "0x60 \<notin> set a" "\<forall>x \<in> set a. \<not> is_line_terminator x" by blast
        have st: "strip_ticks s = a @ strip_ticks rest"
          unfolding Cons True cs by (rule strip_ticks_pair [OF a])
        have at: "after_ticks no_marks True (a @ 0x60 # rest)"
          using less.prems r by (simp add: Cons True cs tick_not_space)
        show ?thesis
        proof (cases a)
          case Nil
          have "after_ticks no_marks False rest" using at by (simp add: Nil tick_not_space)
          moreover have "length rest < length s" by (simp add: Cons cs)
          ultimately have "strip_ticks rest = [] \<or> \<not> is_white_space (hd (strip_ticks rest))"
            using less.hyps by blast
          then show ?thesis by (simp add: st Nil del: replace_all.simps)
        next
          case (Cons b a')
          then have "\<not> is_white_space b" using at by (auto split: if_splits)
          then show ?thesis by (simp add: st Cons del: replace_all.simps)
        qed
      qed
    qed
  qed
qed

lemma after_hash_head:
  assumes "after_hash no_marks False u r" and "r = [] \<or> \<not> is_white_space (hd r)"
  shows "strip_ticks r = [] \<or> \<not> is_white_space (hd (strip_ticks r))"
proof (cases r)
  case Nil
  then show ?thesis by (simp add: strip_ticks_Nil del: replace_all.simps)
next
  case (Cons c cs)
  with assms(2) have nw: "\<not> is_white_space c" by simp
  show ?thesis
  proof (cases "c = 0x60")
    case False
    with nw show ?thesis by (simp add: Cons strip_ticks_other del: replace_all.simps)
  next
    case True
    show ?thesis
    proof (cases "reach 0x60 cs")
      case False
      then show ?thesis
        by (simp add: Cons True strip_ticks_open tick_not_space del: replace_all.simps)
    next
      case r: True
      have "after_ticks no_marks False r"
        using assms(1) r by (simp add: Cons True tick_not_space)
      then show ?thesis by (rule strip_ticks_head)
    qed
  qed
qed

subsection \<open>Heading prefixes in a tidy text\<close>

lemma strip_hashes_tick:
  "strip_hashes (a @ 0x60 # r) = strip_hashes a @ 0x60 # strip_hashes r"
proof (induction "length a" arbitrary: a rule: less_induct)
  case less
  show ?case
  proof (cases a)
    case Nil
    then show ?thesis by (simp add: strip_hashes_other strip_hashes_Nil del: replace_all.simps)
  next
    case (Cons c a')
    show ?thesis
    proof (cases "c = 0x23")
      case False
      have "strip_hashes (a' @ 0x60 # r) = strip_hashes a' @ 0x60 # strip_hashes r"
        using less [of a'] Cons by simp
      then show ?thesis by (simp add: Cons strip_hashes_other [OF False] del: replace_all.simps)
    next
      case True
      have d: "dropWhile is_white_space (a' @ 0x60 # r) = dropWhile is_white_space a' @ 0x60 # r"
        by (simp add: dropWhile_append tick_not_space)
      have "length (dropWhile is_white_space a') < length a"
        using length_dropWhile_le [of is_white_space a'] Cons by simp
      then have "strip_hashes (dropWhile is_white_space a' @ 0x60 # r)
          = strip_hashes (dropWhile is_white_space a') @ 0x60 # strip_hashes r" by (rule less)
      then show ?thesis by (simp add: Cons True strip_hashes_hash d del: replace_all.simps)
    qed
  qed
qed

lemma strip_hashes_set: "set (strip_hashes s) \<subseteq> set s"
  by (rule replace_all_set [OF cuts_heading_rule]) simp


lemma strip_hashes_before_ticks:
  "0x60 \<notin> set a \<Longrightarrow> tidy no_marks True u (a @ 0x60 # rest) \<Longrightarrow>
     strip_hashes (a @ strip_ticks rest) = strip_hashes a @ strip_hashes (strip_ticks rest)"
proof (induction "length a" arbitrary: a u rule: less_induct)
  case less
  show ?case
  proof (cases a)
    case Nil
    then show ?thesis by (simp add: strip_hashes_Nil del: replace_all.simps)
  next
    case (Cons c a')
    have c: "c \<noteq> 0x60" and a': "0x60 \<notin> set a'" using less.prems(1) Cons by auto
    have t: "tidy no_marks True (u \<and> \<not> is_line_terminator c) (a' @ 0x60 # rest)"
      using less.prems(2) c by (simp add: Cons)
    show ?thesis
    proof (cases "c = 0x23")
      case False
      have "strip_hashes (a' @ strip_ticks rest) = strip_hashes a' @ strip_hashes (strip_ticks rest)"
        using less.hyps [of a'] a' t Cons by simp
      then show ?thesis by (simp add: Cons strip_hashes_other [OF False] del: replace_all.simps)
    next
      case True
      have ah: "after_hash no_marks True u (a' @ 0x60 # rest)"
        using less.prems(2) by (simp add: Cons True)
      show ?thesis
      proof (cases "dropWhile is_white_space a' = []")
        case e: True
        then have w: "\<forall>x \<in> set a'. is_white_space x" by (rule all_spaces_dropWhile)
        have "after_hash no_marks True u (0x60 # rest)" by (rule after_hash_spaces [OF w ah])
        then have "after_ticks no_marks False rest" by (simp add: tick_not_space)
        then have "strip_ticks rest = [] \<or> \<not> is_white_space (hd (strip_ticks rest))"
          by (rule strip_ticks_head)
        then have "dropWhile is_white_space (strip_ticks rest) = strip_ticks rest"
          by (rule dropWhile_head)
        then have "dropWhile is_white_space (a' @ strip_ticks rest) = strip_ticks rest"
          using w by (simp add: dropWhile_append2 del: replace_all.simps)
        then show ?thesis
          by (simp add: Cons True strip_hashes_hash e strip_hashes_Nil del: replace_all.simps)
      next
        case ne: False
        then have d: "\<And>v. dropWhile is_white_space (a' @ v) = dropWhile is_white_space a' @ v"
          by (auto simp: dropWhile_append)
        have l: "length (dropWhile is_white_space a') < length a"
          using length_dropWhile_le [of is_white_space a'] Cons by simp
        have n: "0x60 \<notin> set (dropWhile is_white_space a')"
          using a' by (meson set_dropWhileD)
        from tidy_dropWhile_space [OF t] obtain u' where
          "tidy no_marks True u' (dropWhile is_white_space a' @ 0x60 # rest)" by (auto simp: d)
        with l n have "strip_hashes (dropWhile is_white_space a' @ strip_ticks rest)
            = strip_hashes (dropWhile is_white_space a') @ strip_hashes (strip_ticks rest)"
          by (rule less.hyps)
        then show ?thesis by (simp add: Cons True strip_hashes_hash d del: replace_all.simps)
      qed
    qed
  qed
qed

text \<open>
  Behind an unpaired backtick the heading rules bring no backtick onto its line.
\<close>

lemma strip_hashes_no_reach:
  "tidy no_marks False True cs \<Longrightarrow> \<not> reach 0x60 cs \<Longrightarrow> \<not> reach 0x60 (strip_hashes cs)"
proof (induction "length cs" arbitrary: cs rule: less_induct)
  case less
  show ?case
  proof (cases cs)
    case Nil
    then show ?thesis by (simp add: strip_hashes_Nil del: replace_all.simps)
  next
    case (Cons c cs')
    have c: "c \<noteq> 0x60" using less.prems(2) Cons by auto
    show ?thesis
    proof (cases "c = 0x23")
      case False
      show ?thesis
      proof (cases "is_line_terminator c")
        case True
        then show ?thesis by (simp add: Cons strip_hashes_other [OF False] c del: replace_all.simps)
      next
        case nl: False
        have "tidy no_marks False True cs'" using less.prems(1) c nl by (simp add: Cons)
        moreover have "\<not> reach 0x60 cs'" using less.prems(2) nl by (simp add: Cons)
        ultimately have "\<not> reach 0x60 (strip_hashes cs')" using less.hyps [of cs'] Cons by simp
        then show ?thesis by (simp add: Cons strip_hashes_other [OF False] c del: replace_all.simps)
      qed
    next
      case True
      let ?w = "takeWhile is_white_space cs'" and ?r = "dropWhile is_white_space cs'"
      have w: "\<forall>x \<in> set ?w. is_white_space x" by (auto dest: set_takeWhileD)
      have ah: "after_hash no_marks False True (?w @ ?r)"
        and t: "tidy no_marks False True (?w @ ?r)"
        using less.prems(1) by (simp_all add: Cons True is_line_terminator_def)
      have nr: "\<not> reach 0x60 (?w @ ?r)"
        using less.prems(2) by (simp add: Cons True is_line_terminator_def)
      have "\<not> reach 0x60 (strip_hashes ?r)"
      proof (cases "\<exists>x \<in> set ?w. is_line_terminator x")
        case True
        have "0x60 \<notin> set ?r" by (rule after_hash_terminator [OF w True ah])
        then have "0x60 \<notin> set (strip_hashes ?r)" using strip_hashes_set [of ?r] by blast
        then show ?thesis by (blast dest: reach_in_set)
      next
        case False
        with w have w': "\<forall>x \<in> set ?w. is_white_space x \<and> \<not> is_line_terminator x" by blast
        have "tidy no_marks False True ?r" by (rule tidy_spaces [OF w' t])
        moreover have "\<not> reach 0x60 ?r" using nr reach_spaces [OF w', of ?r] by blast
        moreover have "length ?r < length cs"
          using length_dropWhile_le [of is_white_space cs'] Cons by simp
        ultimately show ?thesis using less.hyps by blast
      qed
      then show ?thesis by (simp add: Cons True strip_hashes_hash del: replace_all.simps)
    qed
  qed
qed

lemma strip_commute:
  "tidy no_marks False u y \<Longrightarrow> strip_hashes (strip_ticks y) = strip_ticks (strip_hashes y)"
proof (induction "length y" arbitrary: y u rule: less_induct)
  case less
  show ?case
  proof (cases y)
    case Nil
    then show ?thesis by (simp add: strip_hashes_Nil strip_ticks_Nil del: replace_all.simps)
  next
    case (Cons c cs)
    consider (hash) "c = 0x23" | (tick) "c = 0x60" | (other) "c \<noteq> 0x23" "c \<noteq> 0x60" by blast
    then show ?thesis
    proof cases
      case other
      have "tidy no_marks False (u \<and> \<not> is_line_terminator c) cs"
        using less.prems other by (simp add: Cons)
      then have "strip_hashes (strip_ticks cs) = strip_ticks (strip_hashes cs)"
        using less.hyps [of cs] Cons by simp
      with other show ?thesis
        by (simp add: Cons strip_hashes_other strip_ticks_other del: replace_all.simps)
    next
      case hash
      let ?w = "takeWhile is_white_space cs" and ?r = "dropWhile is_white_space cs"
      have ah: "after_hash no_marks False u (?w @ ?r)" and t: "tidy no_marks False u cs"
        using less.prems by (simp_all add: Cons hash is_line_terminator_def)
      have w: "\<forall>x \<in> set ?w. is_white_space x" by (auto dest: set_takeWhileD)
      have ahr: "after_hash no_marks False u ?r" by (rule after_hash_spaces [OF w ah])
      have "strip_ticks (?w @ ?r) = ?w @ strip_ticks ?r" by (rule strip_ticks_spaces [OF w])
      then have "dropWhile is_white_space (strip_ticks cs) = dropWhile is_white_space (?w @ strip_ticks ?r)"
        by simp
      also have "\<dots> = dropWhile is_white_space (strip_ticks ?r)"
        using w by (simp add: dropWhile_append2 del: replace_all.simps)
      also have "\<dots> = strip_ticks ?r"
        by (rule dropWhile_head, rule after_hash_head [OF ahr])
           (use hd_dropWhile [of is_white_space cs] in blast)
      finally have d: "dropWhile is_white_space (strip_ticks cs) = strip_ticks ?r" .
      have l: "length ?r < length y" using length_dropWhile_le [of is_white_space cs] Cons by simp
      from tidy_dropWhile_space [OF t] obtain u' where "tidy no_marks False u' ?r" by blast
      with l have "strip_hashes (strip_ticks ?r) = strip_ticks (strip_hashes ?r)"
        by (rule less.hyps)
      then show ?thesis
        by (simp add: Cons hash strip_ticks_other strip_hashes_hash d del: replace_all.simps)
    next
      case tick
      show ?thesis
      proof (cases "reach 0x60 cs")
        case False
        have tt: "tidy no_marks False True cs" using less.prems False by (simp add: Cons tick)
        then have ih: "strip_hashes (strip_ticks cs) = strip_ticks (strip_hashes cs)"
          using less.hyps [of cs] Cons by simp
        have "\<not> reach 0x60 (strip_hashes cs)" by (rule strip_hashes_no_reach [OF tt False])
        then show ?thesis
          using False
          by (simp add: Cons tick ih strip_ticks_open strip_hashes_other del: replace_all.simps)
      next
        case True
        from reach_split [OF True] obtain a rest where cs: "cs = a @ 0x60 # rest"
          and a: "0x60 \<notin> set a" "\<forall>x \<in> set a. \<not> is_line_terminator x" by blast
        have tt: "tidy no_marks True u (a @ 0x60 # rest)"
          using less.prems True by (simp add: Cons tick cs)
        from tidy_span [OF a(1) tt] obtain u' where tr: "tidy no_marks False u' rest" by blast
        have "length rest < length y" by (simp add: Cons cs)
        then have ihr: "strip_hashes (strip_ticks rest) = strip_ticks (strip_hashes rest)"
          using tr by (rule less.hyps)
        have l: "strip_hashes (strip_ticks y) = strip_hashes a @ strip_ticks (strip_hashes rest)"
          unfolding Cons tick cs strip_ticks_pair [OF a]
          using strip_hashes_before_ticks [OF a(1) tt] ihr by simp
        have a': "0x60 \<notin> set (strip_hashes a)" "\<forall>x \<in> set (strip_hashes a). \<not> is_line_terminator x"
          using a strip_hashes_set [of a] by blast+
        have "strip_ticks (strip_hashes y)
            = strip_ticks (0x60 # strip_hashes a @ 0x60 # strip_hashes rest)"
          by (simp add: Cons tick cs strip_hashes_other strip_hashes_tick del: replace_all.simps)
        also have "\<dots> = strip_hashes a @ strip_ticks (strip_hashes rest)"
          by (rule strip_ticks_pair [OF a'])
        finally show ?thesis using l by simp
      qed
    qed
  qed
qed

subsection \<open>Emphasis marks taken out before\<close>

lemma emphasis_not_space: "is_emphasis c \<Longrightarrow> \<not> is_white_space c"
  by (auto simp: is_emphasis_def is_white_space_def is_line_terminator_def)

lemma emphasis_not_tick: "is_emphasis c \<Longrightarrow> c \<noteq> 0x60"
  by (auto simp: is_emphasis_def)

lemma emphasis_not_hash: "is_emphasis c \<Longrightarrow> c \<noteq> 0x23"
  by (auto simp: is_emphasis_def)


lemma emphasis_not_terminator: "is_emphasis c \<Longrightarrow> \<not> is_line_terminator c"
  by (auto simp: is_emphasis_def is_line_terminator_def)

lemma reach_tick_erases: "erases is_emphasis s t \<Longrightarrow> reach 0x60 t = reach 0x60 s"
  by (induction rule: erases.induct)
     (auto dest: emphasis_not_tick emphasis_not_terminator)

lemma tick_in_erases: "erases is_emphasis s t \<Longrightarrow> (0x60 \<in> set t) = (0x60 \<in> set s)"
  by (induction rule: erases.induct) (auto dest: emphasis_not_tick)

lemma after_ticks_erases:
  "erases is_emphasis s t \<Longrightarrow> after_ticks is_emphasis ins s \<Longrightarrow> after_ticks no_marks ins t"
proof (induction arbitrary: ins rule: erases.induct)
  case erases_Nil
  show ?case by simp
next
  case (erases_keep s t x)
  then show ?case
    by (auto simp: reach_tick_erases dest: emphasis_not_space emphasis_not_tick split: if_splits)
next
  case (erases_drop x s t)
  then show ?case by (simp add: emphasis_not_space)
qed

lemma after_hash_erases:
  "erases is_emphasis s t \<Longrightarrow> after_hash is_emphasis ins u s \<Longrightarrow> after_hash no_marks ins u t"
proof (induction arbitrary: ins rule: erases.induct)
  case erases_Nil
  show ?case by simp
next
  case (erases_keep s t x)
  then show ?case
    by (auto simp: reach_tick_erases tick_in_erases
        dest: emphasis_not_space emphasis_not_tick after_ticks_erases split: if_splits)
next
  case (erases_drop x s t)
  then show ?case by (simp add: emphasis_not_space)
qed

lemma tidy_erases:
  "erases is_emphasis s t \<Longrightarrow> tidy is_emphasis ins u s \<Longrightarrow> tidy no_marks ins u t"
proof (induction arbitrary: ins u rule: erases.induct)
  case erases_Nil
  show ?case by simp
next
  case (erases_keep s t x)
  then show ?case
    by (auto simp: reach_tick_erases dest: after_hash_erases split: if_splits)
next
  case (erases_drop x s t)
  then show ?case
    by (simp add: emphasis_not_tick emphasis_not_hash emphasis_not_terminator)
qed

subsection \<open>The two chains compared\<close>

lemma emphasis_rules_erase:
  "erases is_emphasis x
     (fold replace_all
        [wrap_rule (js ''***''), wrap_rule (js ''**''), wrap_rule (js ''*''),
         wrap_rule (js ''__''), wrap_rule (js ''_'')] x)"
  by (rule fold_replace_all_erases)
     (auto simp: js_def is_emphasis_def intro!: cuts_wrap_rule)

lemma replace_all_fixed_iff:
  assumes "cuts P m"
  shows "replace_all m s = s \<longleftrightarrow> \<not> test m s"
  using replace_all_shorter [OF assms, of s] replace_all_no_match [of m s] by auto

text \<open>
  C8, as the code has it. The backend's chain has the nine rules of the display
  component, in another order, and the link rule. On a tidy input the backend's
  result is the display component's result with the link rule applied, so the two
  are equal exactly when the display component's result has no link form. Tidy
  means, looking past white space and the emphasis marks \<open>*\<close> and \<open>_\<close>: no \<open>#\<close> is
  followed by a backtick that the backtick rule removes and then, behind such
  backticks, by white space; and no \<open>#\<close> that has an unpaired backtick before it on
  its line is followed by a line terminator with a backtick somewhere after it.
  The same holds whenever the text that the five emphasis rules leave of the input
  is tidy with no marks looked past, which is the case for every tidy input and
  for inputs where an emphasis mark that stays stands between the \<open>#\<close> and the
  backticks.
\<close>

theorem cleanResponse_eq_cleanContent:
  "set response_rules = insert link_rule (set display_rules) \<and>
   (tidy is_emphasis False False x \<longrightarrow>
      cleanResponse x = replace_all link_rule (cleanContent x) \<and>
      (cleanResponse x = cleanContent x \<longleftrightarrow> \<not> test link_rule (cleanContent x))) \<and>
   (tidy is_emphasis False False x \<longrightarrow>
      tidy no_marks False False (fold replace_all (take 5 response_rules) x)) \<and>
   (tidy no_marks False False (fold replace_all (take 5 response_rules) x) \<longrightarrow>
      cleanResponse x = replace_all link_rule (cleanContent x) \<and>
      (cleanResponse x = cleanContent x \<longleftrightarrow> \<not> test link_rule (cleanContent x)))"
proof -
  define y where "y = fold replace_all
        [wrap_rule (js ''***''), wrap_rule (js ''**''), wrap_rule (js ''*''),
         wrap_rule (js ''__''), wrap_rule (js ''_'')] x"
  have y: "fold replace_all (take 5 response_rules) x = y"
    by (simp add: response_rules_def y_def)
  have "erases is_emphasis x y" unfolding y_def by (rule emphasis_rules_erase)
  then have t: "tidy is_emphasis False False x \<longrightarrow> tidy no_marks False False y"
    using tidy_erases by blast
  have "cleanContent x = fold replace_all
      [heading_rule (js ''###''), heading_rule (js ''##''), heading_rule (js ''#'')]
      (replace_all (wrap_rule (js ''`'')) y)"
    by (simp add: cleanContent_def display_rules_def y_def)
  then have c: "cleanContent x = strip_hashes (strip_ticks y)"
    unfolding fold_headings by (simp add: js_def del: replace_all.simps)
  have "cleanResponse x = replace_all link_rule (replace_all (wrap_rule (js ''`''))
      (fold replace_all
        [heading_rule (js ''###''), heading_rule (js ''##''), heading_rule (js ''#'')] y))"
    by (simp add: cleanResponse_def response_rules_def y_def)
  then have "cleanResponse x = replace_all link_rule (strip_ticks (strip_hashes y))"
    unfolding fold_headings by (simp add: js_def del: replace_all.simps)
  then have r: "tidy no_marks False False y \<longrightarrow>
      cleanResponse x = replace_all link_rule (cleanContent x)"
    unfolding c using strip_commute by simp
  have f: "replace_all link_rule (cleanContent x) = cleanContent x
      \<longleftrightarrow> \<not> test link_rule (cleanContent x)"
    by (rule replace_all_fixed_iff [OF cuts_link_rule])
  from t r f response_rules_eq show ?thesis unfolding y by auto
qed

theorem cleanResponse_eq_cleanContent_witness:
  "cleanContent (js ''## Title `code`'' @ [0x0A] @ js ''# **b** [a](c)'')
     = js ''Title code'' @ [0x0A] @ js ''b [a](c)'' \<and>
   cleanResponse (js ''## Title `code`'' @ [0x0A] @ js ''# **b** [a](c)'')
     = js ''Title code'' @ [0x0A] @ js ''b a'' \<and>
   cleanContent (js ''Use `var` in C#'' @ [0x0A] @ js ''Next'') = js ''Use var in CNext'' \<and>
   cleanResponse (js ''Use `var` in C#'' @ [0x0A] @ js ''Next'') = js ''Use var in CNext'' \<and>
   \<not> tidy is_emphasis False False (js ''#*`` a'') \<and>
   cleanContent (js ''#*`` a'') = js ''* a'' \<and>
   cleanResponse (js ''#*`` a'') = js ''* a''"
proof -
  have t1: "tidy is_emphasis False False (js ''## Title `code`'' @ [0x0A] @ js ''# **b** [a](c)'')"
    and t2: "tidy is_emphasis False False (js ''Use `var` in C#'' @ [0x0A] @ js ''Next'')"
    and n3: "\<not> tidy is_emphasis False False (js ''#*`` a'')"
    by (simp_all add: js_def is_emphasis_def is_white_space_def is_line_terminator_def)
  have t3: "tidy no_marks False False (fold replace_all (take 5 response_rules) (js ''#*`` a''))"
    by (simp add: cleanup_eval)
  have c1: "cleanContent (js ''## Title `code`'' @ [0x0A] @ js ''# **b** [a](c)'')
     = js ''Title code'' @ [0x0A] @ js ''b [a](c)''"
    and c2: "cleanContent (js ''Use `var` in C#'' @ [0x0A] @ js ''Next'') = js ''Use var in CNext''"
    and c3: "cleanContent (js ''#*`` a'') = js ''* a''"
    by (simp_all add: cleanup_eval)
  have l1: "replace_all link_rule (js ''Title code'' @ [0x0A] @ js ''b [a](c)'')
     = js ''Title code'' @ [0x0A] @ js ''b a''"
    and l2: "\<not> test link_rule (js ''Use var in CNext'')"
    and l3: "\<not> test link_rule (js ''* a'')"
    by (simp_all add: link_rule_def js_def is_line_terminator_def)
  have "cleanResponse (js ''## Title `code`'' @ [0x0A] @ js ''# **b** [a](c)'')
      = replace_all link_rule (cleanContent (js ''## Title `code`'' @ [0x0A] @ js ''# **b** [a](c)''))"
    using cleanResponse_eq_cleanContent [of "js ''## Title `code`'' @ [0x0A] @ js ''# **b** [a](c)''"] t1
    by blast
  then have r1: "cleanResponse (js ''## Title `code`'' @ [0x0A] @ js ''# **b** [a](c)'')
      = js ''Title code'' @ [0x0A] @ js ''b a''"
    by (simp only: c1 l1)
  have "cleanResponse (js ''Use `var` in C#'' @ [0x0A] @ js ''Next'')
      = cleanContent (js ''Use `var` in C#'' @ [0x0A] @ js ''Next'')"
    using cleanResponse_eq_cleanContent [of "js ''Use `var` in C#'' @ [0x0A] @ js ''Next''"] t2
      l2 [folded c2] by blast
  then have r2: "cleanResponse (js ''Use `var` in C#'' @ [0x0A] @ js ''Next'') = js ''Use var in CNext''"
    by (simp only: c2)
  have "cleanResponse (js ''#*`` a'') = cleanContent (js ''#*`` a'')"
    using cleanResponse_eq_cleanContent [of "js ''#*`` a''"] t3 l3 [folded c3] by blast
  then have r3: "cleanResponse (js ''#*`` a'') = js ''* a''"
    by (simp only: c3)
  from c1 r1 c2 r2 n3 c3 r3 show ?thesis by blast
qed

text \<open>
  C8, as the specification states it, fails on inputs without any link form. The
  display component strips backticks before heading prefixes and the backend after
  them: the white space after \<open>#``\<close> is removed by one and kept by the other, and a
  line break removed after \<open>#\<close> brings two backticks together for the backend only.
  A link form can also come up after the asterisks are taken out.
\<close>

theorem cleanResponse_differs_from_cleanContent:
  "\<not> test link_rule (js ''#`` x'') \<and>
   cleanResponse (js ''#`` x'') = js '' x'' \<and>
   cleanContent (js ''#`` x'') = js ''x'' \<and>
   \<not> test link_rule (js ''`#'' @ [0x0A] @ js ''`'') \<and>
   cleanResponse (js ''`#'' @ [0x0A] @ js ''`'') = [] \<and>
   cleanContent (js ''`#'' @ [0x0A] @ js ''`'') = js ''``'' \<and>
   \<not> test link_rule (js ''[a]*(*b)'') \<and>
   cleanResponse (js ''[a]*(*b)'') = js ''a'' \<and>
   cleanContent (js ''[a]*(*b)'') = js ''[a](b)''"
  by (simp add: cleanup_eval)

end
